theory Spec2Isabelle
  imports Complex_Main "HOL-Library.Sublist" "HOL-Library.List_Lexorder" "HOL-Library.Char_ord"
    "HOL-Library.Multiset"
begin

section \<open>JavaScript strings and arrays\<close>

text \<open>
  A JavaScript string is a sequence of code units; the model writes it as a \<open>string\<close>
  (a \<open>char list\<close>), one \<open>char\<close> per code unit. A character beyond ASCII is
  written as the bytes the file holds for it (UTF-8); searching and joining text work
  the same on both, and on ASCII text the counts are the same. \<open>indexOf\<close> answers \<open>-1\<close> when
  nothing is found and \<open>slice\<close> counts a negative index from the end, so both work on
  \<open>int\<close>, as the source's numbers do.
\<close>

fun indexFrom :: "'a list \<Rightarrow> 'a list \<Rightarrow> nat \<Rightarrow> int" where
  "indexFrom needle [] k = (if needle = [] then int k else - 1)"
| "indexFrom needle (c # cs) k =
     (if prefix needle (c # cs) then int k else indexFrom needle cs (Suc k))"

definition indexOf :: "'a list \<Rightarrow> 'a list \<Rightarrow> int \<Rightarrow> int" where
  \<comment> \<open>\<open>hay.indexOf(needle, from)\<close>: the position is clamped to \<open>0 .. hay.length\<close>.\<close>
  "indexOf hay needle from =
     (let k = nat (max 0 (min from (int (length hay)))) in indexFrom needle (drop k hay) k)"

definition includes_str :: "'a list \<Rightarrow> 'a list \<Rightarrow> bool" where
  \<comment> \<open>\<open>hay.includes(needle)\<close>\<close>
  "includes_str hay needle = (indexOf hay needle 0 \<noteq> - 1)"

definition slice :: "'a list \<Rightarrow> int \<Rightarrow> int \<Rightarrow> 'a list" where
  \<comment> \<open>\<open>xs.slice(b, e)\<close>, for strings and arrays alike\<close>
  "slice xs b e =
     (let n = int (length xs);
          from = (if b < 0 then max (n + b) 0 else min b n);
          to = (if e < 0 then max (n + e) 0 else min e n)
      in take (nat (to - from)) (drop (nat from) xs))"

definition sliceFrom :: "'a list \<Rightarrow> int \<Rightarrow> 'a list" where
  \<comment> \<open>\<open>xs.slice(b)\<close>: the end defaults to the length\<close>
  "sliceFrom xs b = slice xs b (int (length xs))"

definition join :: "'a list \<Rightarrow> 'a list list \<Rightarrow> 'a list" where
  \<comment> \<open>\<open>parts.join(sep)\<close>\<close>
  "join sep parts = (case parts of [] \<Rightarrow> [] | p # ps \<Rightarrow> p @ concat (map (\<lambda>q. sep @ q) ps))"

section \<open>Task Planner (create-site.js, main)\<close>

record plan_entry =
  plan_cluster :: string
  plan_keywords :: "string list option"  \<comment> \<open>\<open>None\<close>: the entry has no \<open>keywords\<close>\<close>

record task =
  task_cluster :: string
  task_keyword :: string

definition push_tasks :: "task list \<Rightarrow> plan_entry \<Rightarrow> task list" where
  \<comment> \<open>the inner loop: \<open>for (const keyword of cluster.keywords || []) allTasks.push(...)\<close>\<close>
  "push_tasks acc c =
     foldl (\<lambda>a kw. a @ [\<lparr>task_cluster = plan_cluster c, task_keyword = kw\<rparr>]) acc
       (case plan_keywords c of None \<Rightarrow> [] | Some kws \<Rightarrow> kws)"

definition allTasks :: "plan_entry list \<Rightarrow> task list" where
  "allTasks plan = foldl push_tasks [] plan"

definition targetTasks :: "plan_entry list \<Rightarrow> int \<Rightarrow> task list" where
  \<comment> \<open>\<open>allTasks.slice(0, maxPosts)\<close>\<close>
  "targetTasks plan maxPosts = slice (allTasks plan) 0 maxPosts"

definition pairs_in_order :: "plan_entry list \<Rightarrow> task list" where
  \<comment> \<open>The (cluster, keyword) pairs of a plan, clusters in plan order and within each its
      keywords in listed order: the order the claim speaks of.\<close>
  "pairs_in_order plan =
     concat (map (\<lambda>c. map (\<lambda>kw. \<lparr>task_cluster = plan_cluster c, task_keyword = kw\<rparr>)
                          (case plan_keywords c of None \<Rightarrow> [] | Some kws \<Rightarrow> kws)) plan)"

section \<open>Multi-part content (create-site.js, processBatch)\<close>

definition prevContext :: "string \<Rightarrow> string \<Rightarrow> string" where
  \<comment> \<open>\<open>const prev = `${part1}\n\n${part2}`.slice(0, 6000)\<close>\<close>
  "prevContext part1 part2 = slice (part1 @ ''\<newline>\<newline>'' @ part2) 0 6000"

definition contentParts :: "(nat \<Rightarrow> string \<Rightarrow> string) \<Rightarrow> string \<times> string \<times> string" where
  \<comment> \<open>The three calls of \<open>generateContentPart\<close>; the backend \<open>gen\<close> gets the part index
      and \<open>previousContent\<close> (empty by default for part 1).\<close>
  "contentParts gen =
     (let part1 = gen 1 [];
          part2 = gen 2 part1;
          prev = prevContext part1 part2;
          part3 = gen 3 prev
      in (part1, part2, part3))"

definition part3_previousContent :: "(nat \<Rightarrow> string \<Rightarrow> string) \<Rightarrow> string" where
  \<comment> \<open>what the third call receives as \<open>previousContent\<close>\<close>
  "part3_previousContent gen = (let part1 = gen 1 []; part2 = gen 2 part1 in prevContext part1 part2)"

definition tail_window :: "nat \<Rightarrow> 'a list \<Rightarrow> 'a list" where
  \<comment> \<open>The claim's words, not the code's: at most \<open>n\<close> characters taken from the end.\<close>
  "tail_window n s = drop (length s - n) s"

section \<open>Similarity (internalLinker.js)\<close>

definition lowerAscii :: "char \<Rightarrow> char" where
  "lowerAscii c =
     (case map_of (zip ''ABCDEFGHIJKLMNOPQRSTUVWXYZ'' ''abcdefghijklmnopqrstuvwxyz'') c of
        Some l \<Rightarrow> l | None \<Rightarrow> c)"

fun toLowerCase :: "string \<Rightarrow> string" where
  \<comment> \<open>The letters A to Z, and the two letters beyond ASCII whose lower case holds an
      ASCII letter: the Kelvin sign U+212A becomes \<open>k\<close>, and the dotted capital I U+0130
      becomes \<open>i\<close> followed by the combining dot U+0307. Every other letter beyond ASCII
      lowers to letters beyond ASCII; its bytes are left as they are.\<close>
  "toLowerCase [] = []"
| "toLowerCase (c # cs) =
     (if c = CHR 0xE2 \<and> take 2 cs = [CHR 0x84, CHR 0xAA] then CHR ''k'' # toLowerCase (drop 2 cs)
      else if c = CHR 0xC4 \<and> take 1 cs = [CHR 0xB0]
      then CHR ''i'' # CHR 0xCC # CHR 0x87 # toLowerCase (drop 1 cs)
      else lowerAscii c # toLowerCase cs)"

definition alnum :: "char \<Rightarrow> bool" where
  \<comment> \<open>the class \<open>[a-z0-9]\<close>\<close>
  "alnum c = (c \<in> set ''abcdefghijklmnopqrstuvwxyz0123456789'')"

fun replaceNonAlnum :: "bool \<Rightarrow> string \<Rightarrow> string" where
  \<comment> \<open>\<open>.replace(/[^a-z0-9]+/g, ' ')\<close>: every maximal run becomes one space; the flag
      says that the scan is inside a run\<close>
  "replaceNonAlnum inrun [] = []"
| "replaceNonAlnum inrun (c # cs) =
     (if alnum c then c # replaceNonAlnum False cs
      else if inrun then replaceNonAlnum True cs
      else CHR '' '' # replaceNonAlnum True cs)"

definition whitespace :: "char \<Rightarrow> bool" where
  \<comment> \<open>space, tab, line feed, vertical tab, form feed, carriage return\<close>
  "whitespace c = (c \<in> {CHR '' '', CHR 0x09, CHR 0x0A, CHR 0x0B, CHR 0x0C, CHR 0x0D})"

definition trim :: "string \<Rightarrow> string" where
  "trim s = rev (dropWhile whitespace (rev (dropWhile whitespace s)))"

definition normalizeToken :: "string \<Rightarrow> string" where
  "normalizeToken s = trim (replaceNonAlnum False (toLowerCase s))"

fun splitWs :: "bool \<Rightarrow> string \<Rightarrow> string list" where
  \<comment> \<open>\<open>.split(/\s+/)\<close>; the flag says that the scan is inside a run of whitespace\<close>
  "splitWs inrun [] = [[]]"
| "splitWs inrun (c # cs) =
     (if whitespace c then (if inrun then splitWs True cs else [] # splitWs True cs)
      else (case splitWs False cs of [] \<Rightarrow> [[c]] | t # ts \<Rightarrow> (c # t) # ts))"

definition tokenize :: "string \<Rightarrow> string list" where
  "tokenize s = filter (\<lambda>t. t \<noteq> []) (splitWs False (normalizeToken s))"

record frontmatter =
  fm_slug :: "string option"
  fm_title :: "string option"
  fm_cluster :: "string option"
  fm_keywords :: "string list option"  \<comment> \<open>\<open>None\<close>: not an array\<close>
  fm_other :: "(string \<times> string) list"  \<comment> \<open>the keys the link pass never reads\<close>

record post =
  post_path :: string
  post_slug :: string
  post_title :: string
  post_cluster :: string
  post_keywords :: "string list"
  post_content :: string
  post_data :: frontmatter

definition Set_add :: "'a \<Rightarrow> 'a list \<Rightarrow> 'a list" where
  \<comment> \<open>a \<open>Set\<close> keeps its members in insertion order, each once\<close>
  "Set_add x s = (if x \<in> set s then s else s @ [x])"

definition Set_new :: "'a list \<Rightarrow> 'a list" where
  "Set_new xs = fold Set_add xs []"

definition tokenSet :: "post \<Rightarrow> string list" where
  \<comment> \<open>\<open>new Set(a.keywords.map(normalizeToken).concat(tokenize(a.title)))\<close>\<close>
  "tokenSet a = Set_new (map normalizeToken (post_keywords a) @ tokenize (post_title a))"

definition interCount :: "string list \<Rightarrow> string list \<Rightarrow> int" where
  \<comment> \<open>\<open>for (const t of A) if (B.has(t)) inter++\<close>\<close>
  "interCount A B = fold (\<lambda>t inter. if t \<in> set B then inter + 1 else inter) A 0"

datatype jsnumber = Finite rat | PosInfinity | NegInfinity | NaN

definition js_divide :: "int \<Rightarrow> int \<Rightarrow> jsnumber" where
  \<comment> \<open>\<open>n / d\<close> on two integers: a zero divisor gives \<open>NaN\<close> or an infinity, not a number\<close>
  "js_divide n d =
     (if d = 0 then (if n = 0 then NaN else if 0 < n then PosInfinity else NegInfinity)
      else Finite (of_int n / of_int d))"

definition similarity :: "post \<Rightarrow> post \<Rightarrow> jsnumber" where
  "similarity a b =
     (let A = tokenSet a; B = tokenSet b;
          inter = interCount A B;
          denom = max 1 (int (length A) + int (length B) - inter)
      in js_divide inter denom)"

definition descending :: "jsnumber \<Rightarrow> rat" where
  \<comment> \<open>The sort key of the comparator \<open>(a, b) => b.score - a.score\<close> on finite scores:
      the higher score first. The scores of \<open>similarity\<close> are all finite.\<close>
  "descending s = (case s of Finite r \<Rightarrow> - r | _ \<Rightarrow> 0)"

section \<open>Link blocks (internalLinker.js)\<close>

definition EARLY_START :: string where
  "EARLY_START = ''<!-- AUTOLINK-EARLY START -->''"

definition NAV_START :: string where
  "NAV_START = ''<!-- AUTOLINK-NAV START -->''"

definition larrow :: string where
  \<comment> \<open>the leftwards arrow U+2190, written as the bytes the file holds for it\<close>
  "larrow = [CHR 0xE2, CHR 0x86, CHR 0x90]"

definition rarrow :: string where
  \<comment> \<open>the rightwards arrow U+2192\<close>
  "rarrow = [CHR 0xE2, CHR 0x86, CHR 0x92]"

definition linkLine :: "post \<Rightarrow> string" where
  \<comment> \<open>\<open>`- [${p.title}](/${p.slug}/)`\<close>\<close>
  "linkLine p = ''- ['' @ post_title p @ ''](/'' @ post_slug p @ ''/)''"

definition blockWithLinks :: "string \<Rightarrow> post list \<Rightarrow> string" where
  \<comment> \<open>Both related blocks are rendered here, under the one marker pair.\<close>
  "blockWithLinks title items =
     (if items = [] then []
      else let links = join ''\<newline>'' (map linkLine items)
           in ''\<newline>\<newline>'' @ EARLY_START @ ''\<newline>\<newline>### '' @ title @ ''\<newline>\<newline>''
              @ links @ ''\<newline>\<newline><!-- AUTOLINK-EARLY END -->\<newline>'')"

definition prevNextBlock :: "post option \<Rightarrow> post option \<Rightarrow> string" where
  "prevNextBlock prev next =
     (let parts =
            (case prev of None \<Rightarrow> []
             | Some p \<Rightarrow> [''['' @ larrow @ '' '' @ post_title p @ ''](/'' @ post_slug p @ ''/)''])
            @ (case next of None \<Rightarrow> []
               | Some n \<Rightarrow> [''['' @ post_title n @ '' '' @ rarrow @ ''](/'' @ post_slug n @ ''/)''])
      in if parts = [] then []
         else ''\<newline>\<newline>'' @ NAV_START @ ''\<newline>\<newline>---\<newline>\<newline>'' @ join '' | '' parts
              @ ''\<newline>\<newline><!-- AUTOLINK-NAV END -->\<newline>'')"

fun nthIndexOf_loop :: "'a list \<Rightarrow> 'a list \<Rightarrow> nat \<Rightarrow> int \<Rightarrow> int" where
  \<comment> \<open>\<open>while (n-- > 0) { idx = hay.indexOf(needle, idx + 1); if (idx === -1) break; }\<close>\<close>
  "nthIndexOf_loop hay needle 0 idx = idx"
| "nthIndexOf_loop hay needle (Suc n) idx =
     (let idx' = indexOf hay needle (idx + 1)
      in if idx' = - 1 then idx' else nthIndexOf_loop hay needle n idx')"

definition nthIndexOf :: "'a list \<Rightarrow> 'a list \<Rightarrow> nat \<Rightarrow> int" where
  "nthIndexOf hay needle n = nthIndexOf_loop hay needle n (- 1)"

definition insertEarly :: "string \<Rightarrow> string \<Rightarrow> string" where
  \<comment> \<open>the first step of \<open>insertBlocks\<close>: the early block after the 2nd H2\<close>
  "insertEarly out earlyBlock =
     (if earlyBlock \<noteq> [] then
        (let idx = nthIndexOf out ''\<newline>## '' 2
         in if idx \<noteq> - 1 \<and> \<not> includes_str out EARLY_START then
              (let insertAt = indexOf out ''\<newline>'' (idx + 1)
               in slice out 0 insertAt @ earlyBlock @ sliceFrom out insertAt)
            else out)
      else out)"

definition appendEnd :: "string \<Rightarrow> string \<Rightarrow> string" where
  \<comment> \<open>the second step: the end related block\<close>
  "appendEnd out endBlock =
     (if endBlock \<noteq> [] \<and> \<not> includes_str out EARLY_START then out @ endBlock else out)"

definition appendNav :: "string \<Rightarrow> string \<Rightarrow> string" where
  \<comment> \<open>the third step: prev/next navigation at the very end\<close>
  "appendNav out navBlock =
     (if navBlock \<noteq> [] \<and> \<not> includes_str out NAV_START then out @ navBlock else out)"

definition insertBlocks :: "string \<Rightarrow> string \<Rightarrow> string \<Rightarrow> string \<Rightarrow> string" where
  "insertBlocks content earlyBlock endBlock navBlock =
     appendNav (appendEnd (insertEarly content earlyBlock) endBlock) navBlock"

section \<open>Link Graph Builder (internalLinker.js, applyInternalLinks)\<close>

text \<open>
  The front-matter library (\<open>matter\<close> to parse a file, \<open>matter.stringify\<close> to write
  one) and the collation behind \<open>localeCompare\<close> are not part of the repository; they
  are parameters of the model. \<open>collate\<close> gives the sort key of a slug, so that
  \<open>a.localeCompare(b)\<close> compares \<open>collate a\<close> with \<open>collate b\<close>. The files are
  an association list from path to text, of an arbitrary text type.
\<close>

fun Map_set :: "'k \<Rightarrow> 'v \<Rightarrow> ('k \<times> 'v) list \<Rightarrow> ('k \<times> 'v) list" where
  \<comment> \<open>a \<open>Map\<close> keeps its keys in the order of their first insertion\<close>
  "Map_set k v [] = [(k, v)]"
| "Map_set k v ((k', v') # m) = (if k' = k then (k, v) # m else (k', v') # Map_set k v m)"

definition Map_get_or_empty :: "('k \<times> 'v list) list \<Rightarrow> 'k \<Rightarrow> 'v list" where
  \<comment> \<open>\<open>m.get(k) || []\<close>\<close>
  "Map_get_or_empty m k = (case map_of m k of None \<Rightarrow> [] | Some l \<Rightarrow> l)"

definition mkPost :: "string \<Rightarrow> frontmatter \<Rightarrow> string \<Rightarrow> post option" where
  \<comment> \<open>\<open>if (!data?.slug) continue; posts.push({ path, slug, title, cluster, keywords,
      content, data })\<close>; \<open>None\<close> when the file has no slug\<close>
  "mkPost path data content =
     (case fm_slug data of
        None \<Rightarrow> None
      | Some s \<Rightarrow>
          if s = [] then None
          else Some \<lparr>post_path = path,
                     post_slug = s,
                     post_title = (case fm_title data of None \<Rightarrow> s | Some t \<Rightarrow> if t = [] then s else t),
                     post_cluster = (case fm_cluster data of None \<Rightarrow> ''Uncategorized''
                                     | Some c \<Rightarrow> if c = [] then ''Uncategorized'' else c),
                     post_keywords = (case fm_keywords data of None \<Rightarrow> [] | Some ks \<Rightarrow> ks),
                     post_content = content,
                     post_data = data\<rparr>)"

definition parsePost :: "('f \<Rightarrow> frontmatter \<times> string) \<Rightarrow> string \<times> 'f \<Rightarrow> post option" where
  \<comment> \<open>one round of the reading loop: \<open>const { data, content } = matter(raw)\<close>\<close>
  "parsePost matter f = (case matter (snd f) of (data, content) \<Rightarrow> mkPost (fst f) data content)"

definition readPosts :: "('f \<Rightarrow> frontmatter \<times> string) \<Rightarrow> (string \<times> 'f) list \<Rightarrow> post list" where
  "readPosts matter files = List.map_filter (parsePost matter) files"

definition groupByCluster :: "post list \<Rightarrow> (string \<times> post list) list" where
  \<comment> \<open>\<open>list = byCluster.get(c) || []; list.push(post); byCluster.set(c, list)\<close>\<close>
  "groupByCluster posts =
     foldl (\<lambda>m p. Map_set (post_cluster p) (Map_get_or_empty m (post_cluster p) @ [p]) m) [] posts"

definition clusterPostsOf :: "(string \<times> post list) list \<Rightarrow> post \<Rightarrow> post list" where
  "clusterPostsOf byCluster p =
     filter (\<lambda>q. post_slug q \<noteq> post_slug p) (Map_get_or_empty byCluster (post_cluster p))"

definition ranked :: "post \<Rightarrow> post list \<Rightarrow> post list" where
  \<comment> \<open>descending by score; the sort is stable\<close>
  "ranked p clusterPosts = sort_key (\<lambda>q. descending (similarity p q)) clusterPosts"

fun findIndex :: "('a \<Rightarrow> bool) \<Rightarrow> 'a list \<Rightarrow> int" where
  "findIndex P [] = - 1"
| "findIndex P (x # xs) = (if P x then 0 else (let i = findIndex P xs in if i = - 1 then - 1 else i + 1))"

definition prevNext :: "(string \<Rightarrow> 'k::linorder) \<Rightarrow> post list \<Rightarrow> post \<Rightarrow> post option \<times> post option" where
  "prevNext collate clusterPosts p =
     (let sorted = sort_key (\<lambda>q. collate (post_slug q)) (clusterPosts @ [p]);
          idx = findIndex (\<lambda>x. post_slug x = post_slug p) sorted;
          prev = (if idx > 0 then Some (sorted ! nat (idx - 1)) else None);
          next = (if idx < int (length sorted) - 1 then Some (sorted ! nat (idx + 1)) else None)
      in (prev, next))"

definition linkedContent :: "(string \<Rightarrow> 'k::linorder) \<Rightarrow> post list \<Rightarrow> post \<Rightarrow> string" where
  \<comment> \<open>the body of the main loop up to \<open>insertBlocks\<close>, for a post with peers\<close>
  "linkedContent collate clusterPosts p =
     (let rk = ranked p clusterPosts;
          early = slice rk 0 2;
          end = slice rk 2 5;
          pn = prevNext collate clusterPosts p;
          earlyBlock = blockWithLinks ''You might also like'' early;
          endBlock = blockWithLinks (''More in '' @ post_cluster p) (if end \<noteq> [] then end else slice rk 0 3);
          navBlock = prevNextBlock (fst pn) (snd pn)
      in insertBlocks (post_content p) earlyBlock endBlock navBlock)"

definition linkStep ::
  "(string \<Rightarrow> frontmatter \<Rightarrow> 'f) \<Rightarrow> (string \<Rightarrow> 'k::linorder) \<Rightarrow> (string \<times> post list) list
     \<Rightarrow> (string \<times> 'f) list \<Rightarrow> post \<Rightarrow> (string \<times> 'f) list" where
  \<comment> \<open>one round of the main loop, on the files\<close>
  "linkStep stringify collate byCluster fs p =
     (let clusterPosts = clusterPostsOf byCluster p
      in if clusterPosts = [] then fs
         else Map_set (post_path p) (stringify (linkedContent collate clusterPosts p) (post_data p)) fs)"

definition applyInternalLinks ::
  "('f \<Rightarrow> frontmatter \<times> string) \<Rightarrow> (string \<Rightarrow> frontmatter \<Rightarrow> 'f) \<Rightarrow> (string \<Rightarrow> 'k::linorder)
     \<Rightarrow> (string \<times> 'f) list \<Rightarrow> (string \<times> 'f) list" where
  "applyInternalLinks matter stringify collate files =
     (let posts = readPosts matter files;
          byCluster = groupByCluster posts
      in foldl (linkStep stringify collate byCluster) files posts)"

definition newline :: "string \<Rightarrow> string" where
  \<comment> \<open>What the front-matter library does to a body it writes: a line feed is added
      unless the body ends with one.\<close>
  "newline str = (if str \<noteq> [] \<and> last str = CHR 0x0A then str else str @ ''\<newline>'')"

section \<open>Related links after each batch (create-site.js, addRelatedLinks)\<close>

record postMeta =
  meta_slug :: string
  meta_title :: string
  meta_cluster :: string
  meta_mdxFilePath :: string

text \<open>
  \<open>Math.random\<close> is a sequence of draws \<open>rnd 0\<close>, \<open>rnd 1\<close>, ...; the state carries the
  number of draws made so far. \<open>Math.floor(Math.random() * (i + 1))\<close> is any index from
  \<open>0\<close> to \<open>i\<close>: the draw modulo \<open>i + 1\<close>.
\<close>

fun shuffle_loop :: "(nat \<Rightarrow> nat) \<Rightarrow> nat \<Rightarrow> nat \<Rightarrow> 'a list \<Rightarrow> 'a list \<times> nat" where
  \<comment> \<open>\<open>for (let i = a.length - 1; i > 0; i--) { j = ...; [a[i], a[j]] = [a[j], a[i]]; }\<close>\<close>
  "shuffle_loop rnd pos 0 a = (a, pos)"
| "shuffle_loop rnd pos (Suc n) a =
     (let i = Suc n; j = rnd pos mod (i + 1)
      in shuffle_loop rnd (Suc pos) n (a[i := a ! j, j := a ! i]))"

definition shuffle :: "(nat \<Rightarrow> nat) \<Rightarrow> nat \<Rightarrow> 'a list \<Rightarrow> 'a list \<times> nat" where
  "shuffle rnd pos arr = shuffle_loop rnd pos (length arr - 1) arr"

definition metaLinkLine :: "postMeta \<Rightarrow> string" where
  "metaLinkLine p = ''- ['' @ meta_title p @ ''](/'' @ meta_slug p @ ''/)''"

definition relatedBlock :: "string \<Rightarrow> postMeta list \<Rightarrow> string" where
  \<comment> \<open>\<open>`\n\n---\n\n### Related in ${cluster}\n\n${links}\n`\<close>\<close>
  "relatedBlock cluster picks =
     ''\<newline>\<newline>---\<newline>\<newline>### Related in '' @ cluster @ ''\<newline>\<newline>''
       @ join ''\<newline>'' (map metaLinkLine picks) @ ''\<newline>''"

datatype io_error = ENOENT

type_synonym files = "(string \<times> string) list"

definition relatedStep ::
  "(nat \<Rightarrow> nat) \<Rightarrow> string \<Rightarrow> postMeta list \<Rightarrow> nat \<times> files \<Rightarrow> postMeta \<Rightarrow> io_error + nat \<times> files" where
  \<comment> \<open>One round of the inner loop. Reading a file that does not exist rejects.\<close>
  "relatedStep rnd cluster list st meta =
     (let others = filter (\<lambda>m. meta_slug m \<noteq> meta_slug meta) list;
          sh = shuffle rnd (fst st) others;
          picks = slice (fst sh) 0 3
      in if picks = [] then Inr (snd sh, snd st)
         else (case map_of (snd st) (meta_mdxFilePath meta) of
                 None \<Rightarrow> Inl ENOENT
               | Some original \<Rightarrow>
                   Inr (snd sh, Map_set (meta_mdxFilePath meta) (original @ relatedBlock cluster picks) (snd st))))"

fun forEach :: "('s \<Rightarrow> 'a \<Rightarrow> io_error + 's) \<Rightarrow> 's \<Rightarrow> 'a list \<Rightarrow> io_error + 's" where
  \<comment> \<open>a \<open>for ... of\<close> loop whose body awaits: the first rejection ends it\<close>
  "forEach f st [] = Inr st"
| "forEach f st (x # xs) = (case f st x of Inl e \<Rightarrow> Inl e | Inr st' \<Rightarrow> forEach f st' xs)"

definition groupMetas :: "postMeta list \<Rightarrow> (string \<times> postMeta list) list" where
  "groupMetas postMetas =
     foldl (\<lambda>m p. Map_set (meta_cluster p) (Map_get_or_empty m (meta_cluster p) @ [p]) m) [] postMetas"

definition addRelatedLinks ::
  "(nat \<Rightarrow> nat) \<Rightarrow> nat \<times> files \<Rightarrow> postMeta list \<Rightarrow> io_error + nat \<times> files" where
  "addRelatedLinks rnd st postMetas =
     forEach (\<lambda>st' entry. forEach (relatedStep rnd (fst entry) (snd entry)) st' (snd entry))
       st (groupMetas postMetas)"

section \<open>Bounded concurrency (openaiClient.js, Semaphore)\<close>

text \<open>
  JavaScript runs one job at a time; an \<open>async\<close> function is cut into jobs at its
  \<open>await\<close>s. \<open>run\<close> has three: the call itself (up to the first \<open>await\<close>, which is the
  wait in the queue when the semaphore is full and the wait for \<open>fn()\<close> otherwise), the
  resumption of a caller whose queued resolver has been called, and the \<open>finally\<close> block
  once the body has settled. A caller is in its body from the call of \<open>fn\<close> until that
  promise settles.
\<close>

datatype phase = Idle | Queued | Woken | InBody | Settled | Finished

record semaphore =
  sem_max :: int
  sem_count :: int
  sem_queue :: "nat list"  \<comment> \<open>the callers whose resolvers wait, oldest first\<close>

record sem_state =
  sem :: semaphore
  phase_of :: "nat \<Rightarrow> phase"

definition Semaphore_new :: "int \<Rightarrow> semaphore" where
  \<comment> \<open>\<open>this.max = Math.max(1, max || 1)\<close>\<close>
  "Semaphore_new m = \<lparr>sem_max = max 1 (if m = 0 then 1 else m), sem_count = 0, sem_queue = []\<rparr>"

definition sem_init :: "int \<Rightarrow> sem_state" where
  "sem_init m = \<lparr>sem = Semaphore_new m, phase_of = (\<lambda>_. Idle)\<rparr>"

datatype event = Call nat | Resume nat | Settle nat | Finally nat

definition set_phase :: "nat \<Rightarrow> phase \<Rightarrow> sem_state \<Rightarrow> sem_state" where
  "set_phase i ph st = st\<lparr>phase_of := (phase_of st)(i := ph)\<rparr>"

fun sem_step :: "sem_state \<Rightarrow> event \<Rightarrow> sem_state option" where
  \<comment> \<open>\<open>if (this.count >= this.max) await new Promise((r) => this.queue.push(r));\<close>
      and, when there is room, \<open>this.count++\<close> and the call of \<open>fn\<close>\<close>
  "sem_step st (Call i) =
     (if phase_of st i \<noteq> Idle then None
      else if sem_count (sem st) \<ge> sem_max (sem st)
      then Some (set_phase i Queued (st\<lparr>sem := (sem st)\<lparr>sem_queue := sem_queue (sem st) @ [i]\<rparr>\<rparr>))
      else Some (set_phase i InBody (st\<lparr>sem := (sem st)\<lparr>sem_count := sem_count (sem st) + 1\<rparr>\<rparr>)))"
  \<comment> \<open>after the wait: \<open>this.count++\<close> and the call of \<open>fn\<close>, with no second test\<close>
| "sem_step st (Resume i) =
     (if phase_of st i \<noteq> Woken then None
      else Some (set_phase i InBody (st\<lparr>sem := (sem st)\<lparr>sem_count := sem_count (sem st) + 1\<rparr>\<rparr>)))"
  \<comment> \<open>the promise of \<open>fn()\<close> settles\<close>
| "sem_step st (Settle i) =
     (if phase_of st i \<noteq> InBody then None else Some (set_phase i Settled st))"
  \<comment> \<open>\<open>finally { this.count--; const next = this.queue.shift(); if (next) next(); }\<close>\<close>
| "sem_step st (Finally i) =
     (if phase_of st i \<noteq> Settled then None
      else (case sem_queue (sem st) of
              [] \<Rightarrow> Some (set_phase i Finished (st\<lparr>sem := (sem st)\<lparr>sem_count := sem_count (sem st) - 1\<rparr>\<rparr>))
            | next # rest \<Rightarrow>
                Some (set_phase next Woken (set_phase i Finished
                  (st\<lparr>sem := (sem st)\<lparr>sem_count := sem_count (sem st) - 1, sem_queue := rest\<rparr>\<rparr>)))))"

fun sem_run :: "sem_state \<Rightarrow> event list \<Rightarrow> sem_state option" where
  "sem_run st [] = Some st"
| "sem_run st (e # es) = (case sem_step st e of None \<Rightarrow> None | Some st' \<Rightarrow> sem_run st' es)"

definition in_body :: "sem_state \<Rightarrow> nat list \<Rightarrow> nat list" where
  \<comment> \<open>those of the given callers whose body is executing\<close>
  "in_body st callers = filter (\<lambda>i. phase_of st i = InBody) callers"

definition sem_view :: "nat list \<Rightarrow> sem_state \<Rightarrow> int \<times> int \<times> nat list" where
  \<comment> \<open>the limit, the counter, and those of the given callers that are in their body\<close>
  "sem_view callers st = (sem_max (sem st), sem_count (sem st), in_body st callers)"

section \<open>Notions used in the statements\<close>

definition cluster_peers :: "post list \<Rightarrow> post \<Rightarrow> post set" where
  \<comment> \<open>the other posts of the document's cluster: same cluster, another slug\<close>
  "cluster_peers posts d =
     {q \<in> set posts. post_cluster q = post_cluster d \<and> post_slug q \<noteq> post_slug d}"

definition before :: "(string \<Rightarrow> 'k::linorder) \<Rightarrow> post list \<Rightarrow> post \<Rightarrow> post list" where
  \<comment> \<open>the peers sorted at or before the document, in sorted order\<close>
  "before collate ps d =
     sort_key (\<lambda>q. collate (post_slug q))
       (filter (\<lambda>q. collate (post_slug q) \<le> collate (post_slug d)) ps)"

definition after :: "(string \<Rightarrow> 'k::linorder) \<Rightarrow> post list \<Rightarrow> post \<Rightarrow> post list" where
  \<comment> \<open>the peers sorted after the document, in sorted order\<close>
  "after collate ps d =
     sort_key (\<lambda>q. collate (post_slug q))
       (filter (\<lambda>q. collate (post_slug d) < collate (post_slug q)) ps)"

definition nearest_before :: "(string \<Rightarrow> 'k::linorder) \<Rightarrow> post set \<Rightarrow> post \<Rightarrow> post option \<Rightarrow> bool" where
  \<comment> \<open>\<open>r\<close> is the peer immediately before \<open>d\<close> in the ordering of the slugs, or
      absent when no peer is ordered before \<open>d\<close>. A peer with the key of \<open>d\<close> counts
      as before it.\<close>
  "nearest_before collate S d r =
     (case r of
        None \<Rightarrow> (\<forall>q\<in>S. \<not> collate (post_slug q) \<le> collate (post_slug d))
      | Some p \<Rightarrow> p \<in> S \<and> collate (post_slug p) \<le> collate (post_slug d) \<and>
          (\<forall>q\<in>S. collate (post_slug q) \<le> collate (post_slug d)
                    \<longrightarrow> collate (post_slug q) \<le> collate (post_slug p)))"

definition nearest_after :: "(string \<Rightarrow> 'k::linorder) \<Rightarrow> post set \<Rightarrow> post \<Rightarrow> post option \<Rightarrow> bool" where
  \<comment> \<open>\<open>r\<close> is the peer immediately after \<open>d\<close>, or absent when none is ordered after\<close>
  "nearest_after collate S d r =
     (case r of
        None \<Rightarrow> (\<forall>q\<in>S. \<not> collate (post_slug d) < collate (post_slug q))
      | Some n \<Rightarrow> n \<in> S \<and> collate (post_slug d) < collate (post_slug n) \<and>
          (\<forall>q\<in>S. collate (post_slug d) < collate (post_slug q)
                    \<longrightarrow> collate (post_slug n) \<le> collate (post_slug q)))"

definition example_post :: "string \<Rightarrow> post" where
  \<comment> \<open>a post of the cluster \<open>c\<close> with the given slug, for the worked examples\<close>
  "example_post s =
     \<lparr>post_path = ''content/c/'' @ s @ ''.mdx'', post_slug = s, post_title = s,
      post_cluster = ''c'', post_keywords = [], post_content = ''text'',
      post_data = \<lparr>fm_slug = Some s, fm_title = None, fm_cluster = Some ''c'',
                    fm_keywords = None, fm_other = []\<rparr>\<rparr>"

definition fileAfter ::
  "('f \<Rightarrow> frontmatter \<times> string) \<Rightarrow> (string \<Rightarrow> frontmatter \<Rightarrow> 'f) \<Rightarrow> (string \<Rightarrow> 'k::linorder)
     \<Rightarrow> (string \<times> post list) list \<Rightarrow> string \<times> 'f \<Rightarrow> string \<times> 'f" where
  \<comment> \<open>what one pass leaves of a file: rewritten when it parses to a post with peers\<close>
  "fileAfter matter stringify collate byCluster f =
     (case parsePost matter f of
        None \<Rightarrow> f
      | Some p \<Rightarrow>
          if clusterPostsOf byCluster p = [] then f
          else (fst f, stringify (linkedContent collate (clusterPostsOf byCluster p) p) (post_data p)))"


definition stepFile ::
  "(string \<Rightarrow> frontmatter \<Rightarrow> 'f) \<Rightarrow> (string \<Rightarrow> 'k::linorder) \<Rightarrow> (string \<times> post list) list
     \<Rightarrow> string \<times> 'f \<Rightarrow> post \<Rightarrow> string \<times> 'f" where
  \<comment> \<open>one round of the main loop, seen from a single file\<close>
  "stepFile stringify collate bc f p =
     (if fst f = post_path p \<and> clusterPostsOf bc p \<noteq> []
      then (fst f, stringify (linkedContent collate (clusterPostsOf bc p) p) (post_data p)) else f)"

definition by_code_units :: "string \<Rightarrow> string" where
  \<comment> \<open>the collation that orders slugs lexicographically by their code units\<close>
  "by_code_units s = s"

definition plain_body :: "string \<Rightarrow> bool" where
  \<comment> \<open>a body that does not begin with the front-matter delimiter\<close>
  "plain_body c = (\<not> prefix ''---'' c)"

definition plain_files :: "('f \<Rightarrow> frontmatter \<times> string) \<Rightarrow> (string \<times> 'f) list \<Rightarrow> bool" where
  \<comment> \<open>no file of the set has a body that begins with the delimiter\<close>
  "plain_files matter files = (\<forall>f\<in>set files. plain_body (snd (matter (snd f))))"

definition round_trip :: "('f \<Rightarrow> frontmatter \<times> string) \<Rightarrow> (string \<Rightarrow> frontmatter \<Rightarrow> 'f) \<Rightarrow> bool" where
  \<comment> \<open>What the pass needs of the front-matter library, on bodies that do not begin with
      the delimiter: parsing what was written gives back the data and the body, ended by
      a line feed; and the final line feed makes no difference to what is written.\<close>
  "round_trip matter stringify =
     (\<forall>c d. plain_body c \<longrightarrow>
        matter (stringify c d) = (d, newline c) \<and> stringify (newline c) d = stringify c d)"

definition strip_line_end :: "string \<Rightarrow> string" where
  \<comment> \<open>a carriage return, then a line feed, are dropped from the start\<close>
  "strip_line_end s =
     (let s1 = (if take 1 s = [CHR 0x0D] then drop 1 s else s)
      in if take 1 s1 = [CHR 0x0A] then drop 1 s1 else s1)"

definition leading_block :: "string \<Rightarrow> (string \<times> string) option" where
  \<comment> \<open>The header block a text begins with, and the text after it: the text opens with
      \<open>---\<close> (and not \<open>----\<close>) and the block runs to the next line that starts with
      \<open>---\<close>, or to the end of the text.\<close>
  "leading_block c =
     (if prefix ''---'' c \<and> \<not> prefix ''----'' c then
        (let str = drop 3 c; closeIndex = indexOf str ''\<newline>---'' 0
         in if closeIndex = - 1 then Some (str, [])
            else Some (slice str 0 closeIndex, strip_line_end (sliceFrom str (closeIndex + 4))))
      else None)"

definition gm_matter :: "frontmatter \<times> string \<Rightarrow> frontmatter \<times> string" where
  \<comment> \<open>A stand-in for the front-matter library in the worked examples. A file is kept
      as its data and its body. As the library does, \<open>gm_stringify\<close> first parses the body
      it is given: a header block at the start of the body is taken out of the body and
      merged into the data (here: kept as text among the other keys), and the body is
      ended by a line feed.\<close>
  "gm_matter raw = raw"

definition gm_stringify :: "string \<Rightarrow> frontmatter \<Rightarrow> frontmatter \<times> string" where
  "gm_stringify content data =
     (case leading_block content of
        None \<Rightarrow> (data, newline content)
      | Some (block, rest) \<Rightarrow>
          (data\<lparr>fm_other := (''header block of the body'', block) # fm_other data\<rparr>, newline rest))"


definition example_files :: "(string \<times> frontmatter \<times> string) list" where
  \<comment> \<open>two posts of one cluster; the first has two headings\<close>
  "example_files =
     [(''content/c/alpha.mdx'',
        (post_data (example_post ''alpha''), ''\<newline>## A\<newline>\<newline>one\<newline>\<newline>## B\<newline>\<newline>two\<newline>'')),
      (''content/c/beta.mdx'',
        (post_data (example_post ''beta''), ''three\<newline>''))]"

definition batch_peers :: "postMeta list \<Rightarrow> postMeta \<Rightarrow> postMeta list" where
  \<comment> \<open>the other documents of the batch in the document's cluster\<close>
  "batch_peers metas m =
     filter (\<lambda>q. meta_slug q \<noteq> meta_slug m) (filter (\<lambda>q. meta_cluster q = meta_cluster m) metas)"

definition jobs :: "(string \<times> postMeta list) list \<Rightarrow> (string \<times> postMeta list \<times> postMeta) list" where
  \<comment> \<open>the rounds of the two nested loops of \<open>addRelatedLinks\<close>, in order\<close>
  "jobs g = concat (map (\<lambda>e. map (\<lambda>m. (fst e, snd e, m)) (snd e)) g)"

definition zero_draws :: "nat \<Rightarrow> nat" where
  \<comment> \<open>a random source for the worked examples\<close>
  "zero_draws k = 0"

definition example_meta :: "string \<Rightarrow> postMeta" where
  "example_meta s =
     \<lparr>meta_slug = s, meta_title = s, meta_cluster = ''c'',
      meta_mdxFilePath = ''content/c/'' @ s @ ''.mdx''\<rparr>"

definition example_batch :: files where
  "example_batch = [(''content/c/a.mdx'', ''one\<newline>''), (''content/c/b.mdx'', ''two\<newline>'')]"

definition jobStep ::
  "(nat \<Rightarrow> nat) \<Rightarrow> nat \<times> files \<Rightarrow> string \<times> postMeta list \<times> postMeta \<Rightarrow> io_error + nat \<times> files" where
  "jobStep rnd st j = relatedStep rnd (fst j) (fst (snd j)) st (snd (snd j))"

definition one_block_appended :: "files \<Rightarrow> files \<Rightarrow> string \<Rightarrow> postMeta list \<Rightarrow> string \<Rightarrow> bool" where
  \<comment> \<open>Whatever text the file at \<open>path\<close> held before, afterwards it holds that text
      followed by one block that links to some of the peers; without peers the text is
      as before.\<close>
  "one_block_appended fs fs' path peers cluster =
     (\<forall>orig. map_of fs path = Some orig \<longrightarrow>
        (if peers = [] then map_of fs' path = Some orig
         else (\<exists>picks. picks \<noteq> [] \<and> set picks \<subseteq> set peers \<and>
                 map_of fs' path = Some (orig @ relatedBlock cluster picks))))"

section \<open>Properties\<close>

subsection \<open>Helper facts on slices and sets\<close>

lemma slice_0_nonneg: "0 \<le> e \<Longrightarrow> slice xs 0 e = take (nat e) xs"
  by (simp add: slice_def Let_def min_def)

lemma foldl_push_append:
  "foldl (\<lambda>a kw. a @ [f kw]) acc kws = acc @ map f kws"
  by (induction kws arbitrary: acc) simp_all

lemma push_tasks_append:
  "push_tasks acc c =
     acc @ map (\<lambda>kw. \<lparr>task_cluster = plan_cluster c, task_keyword = kw\<rparr>)
             (case plan_keywords c of None \<Rightarrow> [] | Some kws \<Rightarrow> kws)"
  unfolding push_tasks_def by (rule foldl_push_append)

lemma foldl_push_tasks: "foldl push_tasks acc plan = acc @ pairs_in_order plan"
  by (induction plan arbitrary: acc) (simp_all add: pairs_in_order_def push_tasks_append)

lemma allTasks_eq: "allTasks plan = pairs_in_order plan"
  by (simp add: allTasks_def foldl_push_tasks)

lemma Set_add_set: "set (Set_add x s) = insert x (set s)"
  by (auto simp: Set_add_def)

lemma Set_add_distinct: "distinct s \<Longrightarrow> distinct (Set_add x s)"
  by (simp add: Set_add_def)

lemma fold_Set_add: "distinct s \<Longrightarrow> distinct (fold Set_add xs s) \<and> set (fold Set_add xs s) = set xs \<union> set s"
  by (induction xs arbitrary: s) (auto simp: Set_add_set Set_add_distinct)

lemma Set_new_distinct: "distinct (Set_new xs)"
  using fold_Set_add [of "[]" xs] by (simp add: Set_new_def)

lemma Set_new_set: "set (Set_new xs) = set xs"
  using fold_Set_add [of "[]" xs] by (simp add: Set_new_def)

lemma fold_inter_count:
  "fold (\<lambda>t inter. if t \<in> S then inter + 1 else inter) A (k::int) = k + int (length (filter (\<lambda>t. t \<in> S) A))"
  by (induction A arbitrary: k) simp_all

lemma interCount_card: "distinct A \<Longrightarrow> interCount A B = int (card (set A \<inter> set B))"
proof -
  assume d: "distinct A"
  have "set (filter (\<lambda>t. t \<in> set B) A) = set A \<inter> set B" by auto
  moreover have "distinct (filter (\<lambda>t. t \<in> set B) A)" using d by simp
  ultimately have "length (filter (\<lambda>t. t \<in> set B) A) = card (set A \<inter> set B)"
    by (metis distinct_card)
  then show ?thesis by (simp add: interCount_def fold_inter_count)
qed

lemma interCount_sym: "distinct A \<Longrightarrow> distinct B \<Longrightarrow> interCount A B = interCount B A"
  by (simp add: interCount_card Int_commute)

lemma interCount_bounds: "0 \<le> interCount A B \<and> interCount A B \<le> int (length A)"
  by (simp add: interCount_def fold_inter_count)

subsection \<open>Task Planner\<close>

text \<open>
  C4. For every plan and every maximum \<open>M\<close>, the flattened task list has at most \<open>M\<close>
  tasks, and they are exactly the first \<open>M\<close> (cluster, keyword) pairs in cluster-major,
  keyword-minor input order (all of them when the plan has fewer than \<open>M\<close>).
\<close>

theorem C4_planner_first_M:
  "targetTasks plan (int M) = take M (pairs_in_order plan) \<and>
   length (targetTasks plan (int M)) \<le> M"
  by (simp add: targetTasks_def slice_0_nonneg allTasks_eq)

subsection \<open>Continuity context of part 3\<close>

text \<open>
  C1, as stated, fails. With a first part of 6000 letters \<open>a\<close> and a second part
  \<open>b\<close>, the text joined with a blank line has 6003 characters; the code passes its
  first 6000, the letters \<open>a\<close> alone, while the last 6000 characters end with the
  blank line and \<open>b\<close>.
\<close>

theorem C1_tail_window_counterexample:
  "prevContext (replicate 6000 (CHR ''a'')) ''b'' = replicate 6000 (CHR ''a'') \<and>
   prevContext (replicate 6000 (CHR ''a'')) ''b''
     \<noteq> tail_window 6000 (replicate 6000 (CHR ''a'') @ ''\<newline>\<newline>'' @ ''b'')"
proof -
  have c: "prevContext (replicate 6000 (CHR ''a'')) ''b'' = replicate 6000 (CHR ''a'')"
    by (simp add: prevContext_def slice_0_nonneg)
  have b: "last (tail_window 6000 (replicate 6000 (CHR ''a'') @ ''\<newline>\<newline>'' @ ''b'')) = CHR ''b''"
    by (simp add: tail_window_def)
  have a: "last (replicate 6000 (CHR ''a'')) = CHR ''a''"
    by (simp add: last_replicate)
  have "replicate 6000 (CHR ''a'')
      \<noteq> tail_window 6000 (replicate 6000 (CHR ''a'') @ ''\<newline>\<newline>'' @ ''b'')"
  proof
    assume "replicate 6000 (CHR ''a'')
      = tail_window 6000 (replicate 6000 (CHR ''a'') @ ''\<newline>\<newline>'' @ ''b'')"
    then have "last (replicate 6000 (CHR ''a''))
      = last (tail_window 6000 (replicate 6000 (CHR ''a'') @ ''\<newline>\<newline>'' @ ''b''))"
      by (rule arg_cong)
    then have "CHR ''a'' = CHR ''b''" by (simp only: a b)
    then show False by simp
  qed
  with c show ?thesis by (simp only: simp_thms)
qed

text \<open>
  C1, amended. When part 3 is generated, the context passed as \<open>previousContent\<close> is
  parts 1 and 2 joined with a blank line and cut to at most 6000 characters taken from
  the start of that text: it is a prefix of the joined text, of length 6000 or the whole
  length when that is smaller, so the earliest content is what is kept.
\<close>

theorem C1_context_is_head_window:
  "part3_previousContent gen = prevContext (gen 1 []) (gen 2 (gen 1 [])) \<and>
   snd (snd (contentParts gen)) = gen 3 (part3_previousContent gen) \<and>
   prefix (prevContext part1 part2) (part1 @ ''\<newline>\<newline>'' @ part2) \<and>
   length (prevContext part1 part2) = min 6000 (length part1 + 2 + length part2)"
proof -
  have p: "prefix (prevContext part1 part2) (part1 @ ''\<newline>\<newline>'' @ part2)"
    unfolding prevContext_def by (simp only: slice_0_nonneg take_is_prefix)
  have l: "length (prevContext part1 part2) = min 6000 (length part1 + 2 + length part2)"
    by (simp add: prevContext_def slice_0_nonneg min.commute)
  have g: "part3_previousContent gen = prevContext (gen 1 []) (gen 2 (gen 1 []))"
    by (simp add: part3_previousContent_def Let_def)
  have t: "snd (snd (contentParts gen)) = gen 3 (part3_previousContent gen)"
    by (simp add: part3_previousContent_def contentParts_def Let_def)
  from g t p l show ?thesis by (simp only: simp_thms)
qed

subsection \<open>Similarity\<close>

text \<open>
  C9. For every pair of posts \<open>d\<close> and \<open>p\<close>, \<open>similarity d p = similarity p d\<close>.
\<close>

theorem C9_similarity_symmetric: "similarity d p = similarity p d"
proof -
  have "interCount (tokenSet d) (tokenSet p) = interCount (tokenSet p) (tokenSet d)"
    by (rule interCount_sym) (simp_all add: tokenSet_def Set_new_distinct)
  then show ?thesis by (simp add: similarity_def Let_def add.commute)
qed

text \<open>
  C10. \<open>similarity\<close> is total on every pair of posts, posts with no keywords and an
  empty title included: the divisor is floored at 1, so the division never meets a zero
  divisor and the result is a number, never \<open>NaN\<close> or an infinity, and it lies between 0
  and 1. Two posts with no tokens at all, where the sizes give a divisor of 0 before the
  floor, score 0.
\<close>

theorem C10_similarity_total_in_unit_interval:
  "(\<exists>q. similarity a b = Finite q \<and> 0 \<le> q \<and> q \<le> 1) \<and>
   similarity a b \<noteq> NaN \<and>
   similarity \<lparr>post_path = pa, post_slug = sa, post_title = [], post_cluster = ca,
               post_keywords = [], post_content = xa, post_data = da\<rparr>
              \<lparr>post_path = pb, post_slug = sb, post_title = [], post_cluster = cb,
               post_keywords = [], post_content = xb, post_data = db\<rparr> = Finite 0"
proof -
  define A where "A = tokenSet a"
  define B where "B = tokenSet b"
  define i where "i = interCount A B"
  define dn where "dn = max 1 (int (length A) + int (length B) - i)"
  have i0: "0 \<le> i" and iA: "i \<le> int (length A)"
    using interCount_bounds [of A B] by (simp_all add: i_def)
  have dn1: "1 \<le> dn" by (simp add: dn_def)
  have "i = int (card (set A \<inter> set B))"
    unfolding i_def by (rule interCount_card) (simp add: A_def tokenSet_def Set_new_distinct)
  also have "\<dots> \<le> int (card (set B))" by (simp add: card_mono)
  also have "\<dots> \<le> int (length B)" by (simp add: card_length)
  finally have iB: "i \<le> int (length B)" .
  have idn: "i \<le> dn" using iA iB by (simp add: dn_def)
  have "similarity a b = js_divide i dn"
    by (simp add: similarity_def Let_def A_def B_def i_def dn_def)
  then have sim: "similarity a b = Finite (of_int i / of_int dn)"
    using dn1 by (simp add: js_divide_def)
  have lo: "(0::rat) \<le> of_int i / of_int dn" using i0 dn1 by simp
  have hi: "(of_int i / of_int dn :: rat) \<le> 1" using idn dn1 by simp
  have empty: "similarity \<lparr>post_path = pa, post_slug = sa, post_title = [], post_cluster = ca,
               post_keywords = [], post_content = xa, post_data = da\<rparr>
              \<lparr>post_path = pb, post_slug = sb, post_title = [], post_cluster = cb,
               post_keywords = [], post_content = xb, post_data = db\<rparr> = Finite 0"
    by (simp add: similarity_def Let_def tokenSet_def tokenize_def normalizeToken_def trim_def
        Set_new_def interCount_def js_divide_def)
  show ?thesis using sim lo hi empty by simp
qed

subsection \<open>Bounded concurrency\<close>

text \<open>
  C2 says that under a limit \<open>k\<close> no more than \<open>k\<close> bodies ever execute at once. The
  code misses it. With limit 1: caller 0 enters; caller 1 finds the semaphore full and
  queues; the body of 0 settles and its \<open>finally\<close> block lowers the counter to 0 and
  calls the resolver of 1, which only schedules the resumption of 1; before that job
  runs, caller 2 calls \<open>run\<close>, finds the counter at 0 and enters; then 1 resumes and enters
  without a second test. Callers 1 and 2 are in their bodies together and the counter
  stands at 2.
\<close>

theorem C2_semaphore_admits_two_under_limit_one:
  "map_option (sem_view [0, 1, 2])
     (sem_run (sem_init 1) [Call 0, Call 1, Settle 0, Finally 0, Call 2, Resume 1])
   = Some (1, 2, [1, 2])"
  by (simp add: sem_init_def Semaphore_new_def set_phase_def in_body_def sem_view_def)

subsection \<open>Helper facts on markers and blocks\<close>


lemma indexFrom_not_found: "indexFrom needle hay k = - 1 \<longleftrightarrow> \<not> sublist needle hay"
proof (induction hay arbitrary: k)
  case Nil
  show ?case by simp
next
  case (Cons c cs)
  show ?case
  proof (cases "prefix needle (c # cs)")
    case True
    then show ?thesis by (auto dest: prefix_imp_sublist)
  next
    case False
    then show ?thesis using Cons [of "Suc k"]
      by (cases needle) (auto simp: sublist_Cons_right)
  qed
qed

lemma includes_str_sublist: "includes_str hay needle \<longleftrightarrow> sublist needle hay"
  by (simp add: includes_str_def indexOf_def indexFrom_not_found)

lemma includes_append_left: "includes_str a m \<Longrightarrow> includes_str (a @ b) m"
  by (simp add: includes_str_sublist sublist_append)

lemma includes_append_right: "includes_str b m \<Longrightarrow> includes_str (a @ b) m"
  by (simp add: includes_str_sublist sublist_append)






lemma insertEarly_cases:
  "insertEarly c e = c \<or> (e \<noteq> [] \<and> (\<exists>a b. insertEarly c e = a @ e @ b))"
  by (auto simp: insertEarly_def Let_def)






subsection \<open>Helper facts on sorting and prev/next\<close>


lemma findIndex_append_hit:
  "\<forall>x\<in>set xs. \<not> P x \<Longrightarrow> P y \<Longrightarrow> findIndex P (xs @ y # ys) = int (length xs)"
  by (induction xs) (simp_all add: Let_def)

lemma insort_key_before:
  "f x \<le> f d \<Longrightarrow> insort_key f x (A @ d # R) = insort_key f x A @ d # R"
  by (induction A) simp_all

lemma insort_key_after:
  "\<forall>a\<in>set A. f a < f x \<Longrightarrow> insort_key f x (A @ B) = A @ insort_key f x B"
  by (induction A) (auto simp: not_le)

lemma sort_key_snoc_split:
  "sort_key f (ps @ [d]) =
     sort_key f (filter (\<lambda>q. f q \<le> f d) ps) @ d # sort_key f (filter (\<lambda>q. f d < f q) ps)"
proof (induction ps)
  case Nil
  show ?case by simp
next
  case (Cons x ps)
  show ?case
  proof (cases "f x \<le> f d")
    case True
    then have nlt: "\<not> f d < f x" by simp
    have "sort_key f ((x # ps) @ [d]) = insort_key f x (sort_key f (ps @ [d]))" by simp
    also have "\<dots> = insort_key f x (sort_key f (filter (\<lambda>q. f q \<le> f d) ps)) @ d # sort_key f (filter (\<lambda>q. f d < f q) ps)"
      using True by (simp only: Cons insort_key_before [of f x d])
    finally show ?thesis using True nlt by simp
  next
    case False
    then have lt: "f d < f x" by simp
    have "\<forall>a\<in>set (sort_key f (filter (\<lambda>q. f q \<le> f d) ps) @ [d]). f a < f x"
      using lt by auto
    then have "insort_key f x ((sort_key f (filter (\<lambda>q. f q \<le> f d) ps) @ [d]) @ sort_key f (filter (\<lambda>q. f d < f q) ps))
        = (sort_key f (filter (\<lambda>q. f q \<le> f d) ps) @ [d]) @ insort_key f x (sort_key f (filter (\<lambda>q. f d < f q) ps))"
      by (rule insort_key_after)
    moreover have "sort_key f ((x # ps) @ [d]) = insort_key f x (sort_key f (ps @ [d]))" by simp
    ultimately have "sort_key f ((x # ps) @ [d]) =
        sort_key f (filter (\<lambda>q. f q \<le> f d) ps) @ d # insort_key f x (sort_key f (filter (\<lambda>q. f d < f q) ps))"
      by (simp only: Cons append_assoc append_Cons append_Nil)
    then show ?thesis using False lt by simp
  qed
qed

lemma prevNext_split:
  assumes "\<forall>q\<in>set ps. post_slug q \<noteq> post_slug d"
  shows "prevNext collate ps d =
     (if before collate ps d = [] then None else Some (last (before collate ps d)),
      if after collate ps d = [] then None else Some (hd (after collate ps d)))"
proof -
  define L where "L = before collate ps d"
  define R where "R = after collate ps d"
  have s: "sort_key (\<lambda>q. collate (post_slug q)) (ps @ [d]) = L @ d # R"
    unfolding L_def R_def before_def after_def by (rule sort_key_snoc_split)
  have "\<forall>x\<in>set L. \<not> post_slug x = post_slug d"
    using assms by (auto simp: L_def before_def)
  then have i: "findIndex (\<lambda>x. post_slug x = post_slug d) (L @ d # R) = int (length L)"
    by (rule findIndex_append_hit) simp
  have p: "L \<noteq> [] \<Longrightarrow> (L @ d # R) ! (length L - 1) = last L"
    by (simp add: nth_append last_conv_nth)
  have n: "R \<noteq> [] \<Longrightarrow> (L @ d # R) ! (Suc (length L)) = hd R"
    by (cases R) (simp_all add: nth_append)
  have n': "nat (int (length L) + 1) = Suc (length L)" by simp
  have p': "nat (int (length L) - 1) = length L - 1" by simp
  have c1: "(0 < int (length L)) = (L \<noteq> [])" by simp
  have c2: "(int (length L) < int (length (L @ d # R)) - 1) = (R \<noteq> [])" by simp
  show ?thesis
    unfolding prevNext_def Let_def s i L_def [symmetric] R_def [symmetric] c1 c2 n' p'
    using p n by simp
qed

subsection \<open>Helper facts on maps and grouping\<close>


lemma map_of_Map_set: "map_of (Map_set k v m) = (map_of m)(k \<mapsto> v)"
  by (induction m) (auto simp: fun_eq_iff)

lemma Map_set_keys: "fst ` set (Map_set k v m) = insert k (fst ` set m)"
proof (induction m)
  case Nil
  show ?case by simp
next
  case (Cons a m)
  show ?case
  proof (cases "fst a = k")
    case True
    then show ?thesis by (cases a) auto
  next
    case False
    then show ?thesis using Cons by (cases a) auto
  qed
qed

lemma Map_set_distinct: "distinct (map fst m) \<Longrightarrow> distinct (map fst (Map_set k v m))"
  by (induction m) (auto simp: Map_set_keys)

lemma Map_get_or_empty_Map_set:
  "Map_get_or_empty (Map_set k v m) c = (if c = k then v else Map_get_or_empty m c)"
  by (simp add: Map_get_or_empty_def map_of_Map_set)

lemma group_fold_get:
  "Map_get_or_empty (foldl (\<lambda>m p. Map_set (kf p) (Map_get_or_empty m (kf p) @ [p]) m) m0 ps) c
     = Map_get_or_empty m0 c @ filter (\<lambda>p. kf p = c) ps"
  by (induction ps arbitrary: m0) (simp_all add: Map_get_or_empty_Map_set)

lemma group_fold_distinct:
  "distinct (map fst m0) \<Longrightarrow>
   distinct (map fst (foldl (\<lambda>m p. Map_set (kf p) (Map_get_or_empty m (kf p) @ [p]) m) m0 ps))"
  by (induction ps arbitrary: m0) (simp_all add: Map_set_distinct)

lemma group_fold_keys:
  "set (map fst (foldl (\<lambda>m p. Map_set (kf p) (Map_get_or_empty m (kf p) @ [p]) m) m0 ps))
     = set (map fst m0) \<union> kf ` set ps"
  by (induction ps arbitrary: m0) (auto simp: Map_set_keys)

lemma groupByCluster_get:
  "Map_get_or_empty (groupByCluster posts) c = filter (\<lambda>p. post_cluster p = c) posts"
  using group_fold_get [of post_cluster "[]" posts c]
  by (simp add: groupByCluster_def Map_get_or_empty_def)

lemma clusterPostsOf_filter:
  "clusterPostsOf (groupByCluster posts) d =
     filter (\<lambda>q. post_cluster q = post_cluster d \<and> post_slug q \<noteq> post_slug d) posts"
  by (simp add: clusterPostsOf_def groupByCluster_get conj_commute)

lemma clusterPostsOf_set: "set (clusterPostsOf (groupByCluster posts) d) = cluster_peers posts d"
  by (auto simp: clusterPostsOf_filter cluster_peers_def)

lemma last_sort_key_max:
  "xs \<noteq> [] \<Longrightarrow> q \<in> set xs \<Longrightarrow> f q \<le> f (last (sort_key f xs))"
proof -
  assume ne: "xs \<noteq> []" and q: "q \<in> set xs"
  let ?s = "sort_key f xs"
  have sne: "?s \<noteq> []" using ne by (metis length_sort length_0_conv)
  have "sorted (map f ?s)" by simp
  moreover have "q \<in> set ?s" using q by simp
  then obtain i where i: "i < length ?s" "?s ! i = q" by (metis in_set_conv_nth)
  ultimately have "map f ?s ! i \<le> map f ?s ! (length ?s - 1)"
    using sne by (intro sorted_nth_mono) (auto simp: Suc_le_eq)
  then show ?thesis using i sne by (simp add: last_conv_nth)
qed

lemma hd_sort_key_min:
  "xs \<noteq> [] \<Longrightarrow> q \<in> set xs \<Longrightarrow> f (hd (sort_key f xs)) \<le> f q"
proof -
  assume ne: "xs \<noteq> []" and q: "q \<in> set xs"
  let ?s = "sort_key f xs"
  have sne: "?s \<noteq> []" using ne by (metis length_sort length_0_conv)
  have "sorted (map f ?s)" by simp
  moreover have "q \<in> set ?s" using q by simp
  then obtain i where i: "i < length ?s" "?s ! i = q" by (metis in_set_conv_nth)
  ultimately have "map f ?s ! 0 \<le> map f ?s ! i"
    by (intro sorted_nth_mono) auto
  moreover have "0 < length ?s" using ne by simp
  ultimately show ?thesis using i sne by (simp add: hd_conv_nth nth_map del: length_sort)
qed

lemma sort_key_Nil_iff: "sort_key f xs = [] \<longleftrightarrow> xs = []"
  by (metis length_sort length_0_conv)

subsection \<open>Prev/next navigation\<close>


lemma nearest_before_prevNext:
  assumes "\<forall>q\<in>set ps. post_slug q \<noteq> post_slug d"
  shows "nearest_before collate (set ps) d (fst (prevNext collate ps d))"
proof (cases "before collate ps d = []")
  case True
  then have "filter (\<lambda>q. collate (post_slug q) \<le> collate (post_slug d)) ps = []"
    by (simp add: before_def sort_key_Nil_iff)
  then have "\<forall>q\<in>set ps. \<not> collate (post_slug q) \<le> collate (post_slug d)"
    by (simp add: filter_empty_conv)
  then show ?thesis using True by (simp add: prevNext_split [OF assms] nearest_before_def)
next
  case False
  let ?F = "filter (\<lambda>q. collate (post_slug q) \<le> collate (post_slug d)) ps"
  let ?p = "last (before collate ps d)"
  have Fne: "?F \<noteq> []" using False by (simp add: before_def sort_key_Nil_iff)
  have "?p \<in> set (before collate ps d)" using False by (rule last_in_set)
  then have pF: "?p \<in> set ?F" by (simp add: before_def)
  have mx: "\<forall>q\<in>set ps. collate (post_slug q) \<le> collate (post_slug d)
              \<longrightarrow> collate (post_slug q) \<le> collate (post_slug ?p)"
  proof (intro ballI impI)
    fix q assume "q \<in> set ps" "collate (post_slug q) \<le> collate (post_slug d)"
    then have "q \<in> set ?F" by simp
    then show "collate (post_slug q) \<le> collate (post_slug ?p)"
      unfolding before_def using Fne by (intro last_sort_key_max)
  qed
  show ?thesis using False pF mx by (simp add: prevNext_split [OF assms] nearest_before_def)
qed

lemma nearest_after_prevNext:
  assumes "\<forall>q\<in>set ps. post_slug q \<noteq> post_slug d"
  shows "nearest_after collate (set ps) d (snd (prevNext collate ps d))"
proof (cases "after collate ps d = []")
  case True
  then have "filter (\<lambda>q. collate (post_slug d) < collate (post_slug q)) ps = []"
    by (simp add: after_def sort_key_Nil_iff)
  then have "\<forall>q\<in>set ps. \<not> collate (post_slug d) < collate (post_slug q)"
    by (simp add: filter_empty_conv)
  then show ?thesis using True by (simp add: prevNext_split [OF assms] nearest_after_def)
next
  case False
  let ?F = "filter (\<lambda>q. collate (post_slug d) < collate (post_slug q)) ps"
  let ?n = "hd (after collate ps d)"
  have Fne: "?F \<noteq> []" using False by (simp add: after_def sort_key_Nil_iff)
  have "?n \<in> set (after collate ps d)" using False by (rule hd_in_set)
  then have nF: "?n \<in> set ?F" by (simp add: after_def)
  have mn: "\<forall>q\<in>set ps. collate (post_slug d) < collate (post_slug q)
              \<longrightarrow> collate (post_slug ?n) \<le> collate (post_slug q)"
  proof (intro ballI impI)
    fix q assume "q \<in> set ps" "collate (post_slug d) < collate (post_slug q)"
    then have "q \<in> set ?F" by simp
    then show "collate (post_slug ?n) \<le> collate (post_slug q)"
      unfolding after_def using Fne by (intro hd_sort_key_min)
  qed
  show ?thesis using False nF mn by (simp add: prevNext_split [OF assms] nearest_after_def)
qed

lemma clusterPostsOf_other_slug:
  "\<forall>q\<in>set (clusterPostsOf bc d). post_slug q \<noteq> post_slug d"
  by (simp add: clusterPostsOf_def)

lemma abc_example:
  assumes "post_slug a = ''alpha''" "post_slug b = ''beta''" "post_slug g = ''gamma''"
    and "post_cluster a = c" "post_cluster b = c" "post_cluster g = c"
  shows "prevNext (\<lambda>s. s) (clusterPostsOf (groupByCluster [a, b, g]) b) b = (Some a, Some g)"
    and "prevNext (\<lambda>s. s) (clusterPostsOf (groupByCluster [a, b, g]) a) a = (None, Some b)"
    and "prevNext (\<lambda>s. s) (clusterPostsOf (groupByCluster [a, b, g]) g) g = (Some b, None)"
  using assms by (simp_all add: clusterPostsOf_filter prevNext_def Let_def)

text \<open>
  C8. Prev/next navigation comes from the ordering of the slugs of the document and of
  all its same-cluster peers. \<open>localeCompare\<close> orders slugs by their collation keys; with
  the identity as \<open>collate\<close> this is the lexicographic order of the slugs. For every
  collation, every set of posts and every document \<open>d\<close>: prev is the peer immediately
  before \<open>d\<close> (a peer ordered before \<open>d\<close> with no peer between the two) and is absent
  exactly when no peer is ordered before \<open>d\<close>; next is the peer immediately after and
  is absent exactly when no peer is ordered after. In particular, in a cluster of three
  posts with the slugs alpha, beta and gamma, ordered lexicographically, beta has prev
  alpha and next gamma, alpha has no prev and gamma has no next.
\<close>

theorem C8_prev_next_by_slug_order:
  "nearest_before collate (cluster_peers posts d) d
     (fst (prevNext collate (clusterPostsOf (groupByCluster posts) d) d)) \<and>
   nearest_after collate (cluster_peers posts d) d
     (snd (prevNext collate (clusterPostsOf (groupByCluster posts) d) d)) \<and>
   (post_slug a = ''alpha'' \<and> post_slug b = ''beta'' \<and> post_slug g = ''gamma'' \<and>
    post_cluster a = c \<and> post_cluster b = c \<and> post_cluster g = c \<longrightarrow>
      prevNext (\<lambda>s. s) (clusterPostsOf (groupByCluster [a, b, g]) b) b = (Some a, Some g) \<and>
      prevNext (\<lambda>s. s) (clusterPostsOf (groupByCluster [a, b, g]) a) a = (None, Some b) \<and>
      prevNext (\<lambda>s. s) (clusterPostsOf (groupByCluster [a, b, g]) g) g = (Some b, None))"
proof -
  let ?ps = "clusterPostsOf (groupByCluster posts) d"
  have o: "\<forall>q\<in>set ?ps. post_slug q \<noteq> post_slug d" by (rule clusterPostsOf_other_slug)
  have b: "nearest_before collate (cluster_peers posts d) d (fst (prevNext collate ?ps d))"
    using nearest_before_prevNext [OF o, of collate] by (simp add: clusterPostsOf_set)
  have a: "nearest_after collate (cluster_peers posts d) d (snd (prevNext collate ?ps d))"
    using nearest_after_prevNext [OF o, of collate] by (simp add: clusterPostsOf_set)
  show ?thesis using a b abc_example [of a b g c] by blast
qed

theorem C8_prev_next_witness:
  "nearest_before (\<lambda>s. s)
     (cluster_peers [example_post ''alpha'', example_post ''beta'', example_post ''gamma''] (example_post ''beta''))
     (example_post ''beta'') (Some (example_post ''alpha'')) \<and>
   nearest_after (\<lambda>s. s)
     (cluster_peers [example_post ''alpha'', example_post ''beta'', example_post ''gamma''] (example_post ''beta''))
     (example_post ''beta'') (Some (example_post ''gamma'')) \<and>
   prevNext (\<lambda>s. s)
     (clusterPostsOf (groupByCluster [example_post ''alpha'', example_post ''beta'', example_post ''gamma''])
        (example_post ''alpha'')) (example_post ''alpha'')
     = (None, Some (example_post ''beta''))"
proof -
  let ?A = "example_post ''alpha''" and ?B = "example_post ''beta''" and ?G = "example_post ''gamma''"
  have s: "post_slug ?A = ''alpha''" "post_slug ?B = ''beta''" "post_slug ?G = ''gamma''"
    and c: "post_cluster ?A = ''c''" "post_cluster ?B = ''c''" "post_cluster ?G = ''c''"
    by (simp_all add: example_post_def)
  note t = C8_prev_next_by_slug_order [of "\<lambda>s. s" "[?A, ?B, ?G]" ?B ?A ?B ?G "''c''"]
  from t s c have e: "prevNext (\<lambda>s. s) (clusterPostsOf (groupByCluster [?A, ?B, ?G]) ?B) ?B = (Some ?A, Some ?G)"
    and a: "prevNext (\<lambda>s. s) (clusterPostsOf (groupByCluster [?A, ?B, ?G]) ?A) ?A = (None, Some ?B)"
    by blast+
  from t have "nearest_before (\<lambda>s. s) (cluster_peers [?A, ?B, ?G] ?B) ?B
        (fst (prevNext (\<lambda>s. s) (clusterPostsOf (groupByCluster [?A, ?B, ?G]) ?B) ?B))"
    and "nearest_after (\<lambda>s. s) (cluster_peers [?A, ?B, ?G] ?B) ?B
        (snd (prevNext (\<lambda>s. s) (clusterPostsOf (groupByCluster [?A, ?B, ?G]) ?B) ?B))"
    by blast+
  then show ?thesis using a by (simp add: e)
qed

subsection \<open>Placement of the related blocks\<close>


lemma insertEarly_skipped:
  "nthIndexOf c ''\<newline>## '' 2 = - 1 \<Longrightarrow> insertEarly c e = c"
  by (simp add: insertEarly_def Let_def)

lemma appendEnd_only_without_marker:
  "includes_str c EARLY_START \<Longrightarrow> appendEnd c n = c"
  by (simp add: appendEnd_def)

lemma insertEarly_then_no_end:
  assumes "insertEarly c e \<noteq> c" "includes_str e EARLY_START"
  shows "appendEnd (insertEarly c e) n = insertEarly c e"
proof -
  from assms(1) obtain a b where "insertEarly c e = a @ e @ b"
    using insertEarly_cases [of c e] by blast
  then have "includes_str (insertEarly c e) EARLY_START"
    using assms(2) by (simp add: includes_append_left includes_append_right)
  then show ?thesis by (rule appendEnd_only_without_marker)
qed

text \<open>
  C5 says that the early related block goes immediately after the second top-level
  section heading. The code looks for the end of that heading's line with
  \<open>out.indexOf('\n', idx + 1)\<close> and does not test the answer. A body that ends with its
  second heading and no final line feed gives \<open>-1\<close>, and \<open>slice(0, -1)\<close> then cuts
  before the last character: for the body of the two headings \<open>## A\<close> and \<open>## B\<close> the
  block lands inside the second heading, between \<open>## \<close> and \<open>B\<close>. When the heading
  line is ended by a line feed the block does go right after it
  (\<open>insertEarly_position\<close>), and the rest of the claim
  holds on the code: with fewer than two headings the early block is skipped
  (\<open>insertEarly_skipped\<close>), the end block is appended only when the marker is absent
  (\<open>appendEnd_only_without_marker\<close>), and a pass that inserts the early block does not
  append the end block (\<open>insertEarly_then_no_end\<close>).
\<close>

theorem C5_early_block_splits_last_heading:
  "linkedContent (\<lambda>s. s) [example_post ''beta'']
     ((example_post ''alpha'')\<lparr>post_content := ''\<newline>## A\<newline>\<newline>## B''\<rparr>)
   = ''\<newline>## A\<newline>\<newline>## ''
     @ blockWithLinks ''You might also like'' [example_post ''beta'']
     @ ''B''
     @ prevNextBlock None (Some (example_post ''beta''))"
  by code_simp

subsection \<open>The link pass, file by file\<close>



lemma mkPost_fields:
  assumes "mkPost path d c = Some p"
  shows "post_path p = path" "post_data p = d" "post_content p = c"
    and "mkPost path d c' = Some (p\<lparr>post_content := c'\<rparr>)"
  using assms by (auto simp: mkPost_def split: option.splits if_splits)

lemma mkPost_None: "mkPost path d c = None \<Longrightarrow> mkPost path d c' = None"
  by (auto simp: mkPost_def split: option.splits if_splits)


lemma stepFile_fst: "fst (stepFile s c bc f p) = fst f"
  by (simp add: stepFile_def)

lemma foldl_stepFile_fst: "fst (foldl (stepFile s c bc) f ps) = fst f"
  by (induction ps arbitrary: f) (simp_all add: stepFile_fst)







subsection \<open>The markers after one pass\<close>











subsection \<open>Related links after each batch\<close>


text \<open>
  C6, as stated, fails: \<open>addRelatedLinks\<close> reads the file and writes it back with the
  block added, and tests nothing. On a batch of two posts of one cluster a second run
  leaves both files with the block twice.
\<close>

theorem C6_second_run_appends_again:
  "addRelatedLinks zero_draws (0, example_batch) [example_meta ''a'', example_meta ''b'']
     = Inr (0, [(''content/c/a.mdx'', ''one\<newline>'' @ relatedBlock ''c'' [example_meta ''b'']),
                (''content/c/b.mdx'', ''two\<newline>'' @ relatedBlock ''c'' [example_meta ''a''])]) \<and>
   addRelatedLinks zero_draws
       (0, [(''content/c/a.mdx'', ''one\<newline>'' @ relatedBlock ''c'' [example_meta ''b'']),
            (''content/c/b.mdx'', ''two\<newline>'' @ relatedBlock ''c'' [example_meta ''a''])])
       [example_meta ''a'', example_meta ''b'']
     = Inr (0, [(''content/c/a.mdx'',
                  ''one\<newline>'' @ relatedBlock ''c'' [example_meta ''b''] @ relatedBlock ''c'' [example_meta ''b'']),
                (''content/c/b.mdx'',
                  ''two\<newline>'' @ relatedBlock ''c'' [example_meta ''a''] @ relatedBlock ''c'' [example_meta ''a''])])"
  by code_simp


lemma shuffle_loop_props:
  "i < length a \<or> i = 0 \<Longrightarrow>
   length (fst (shuffle_loop rnd pos i a)) = length a \<and> set (fst (shuffle_loop rnd pos i a)) = set a"
proof (induction i arbitrary: pos a)
  case 0
  show ?case by simp
next
  case (Suc n)
  then have i: "Suc n < length a" by simp
  let ?j = "rnd pos mod (Suc n + 1)"
  have "?j < Suc n + 1" by (rule mod_less_divisor) simp
  then have j: "?j < length a" using i by linarith
  let ?a' = "a[Suc n := a ! ?j, ?j := a ! Suc n]"
  have "length ?a' = length a" by simp
  moreover have "set ?a' = set a" using i j by (rule set_swap)
  moreover have "n < length ?a' \<or> n = 0" using i by simp
  ultimately show ?case using Suc.IH [of ?a' "Suc pos"] by (simp add: Let_def)
qed

lemma shuffle_props:
  "length (fst (shuffle rnd pos a)) = length a \<and> set (fst (shuffle rnd pos a)) = set a"
  unfolding shuffle_def by (rule shuffle_loop_props) (cases a; simp)

lemma picks_props:
  "(slice (fst (shuffle rnd pos others)) 0 3 = [] \<longleftrightarrow> others = []) \<and>
   set (slice (fst (shuffle rnd pos others)) 0 3) \<subseteq> set others"
proof -
  let ?sh = "fst (shuffle rnd pos others)"
  have l: "length ?sh = length others" and s: "set ?sh = set others"
    using shuffle_props [of rnd pos others] by simp_all
  have t: "slice ?sh 0 3 = take 3 ?sh" by (simp add: slice_0_nonneg)
  have "(take 3 ?sh = []) = (others = [])" using l by (cases ?sh) auto
  moreover have "set (take 3 ?sh) \<subseteq> set others" using s by (metis set_take_subset)
  ultimately show ?thesis by (simp only: t)
qed

lemma relatedStep_cases:
  assumes "map_of fs (meta_mdxFilePath m) = Some orig"
  shows "\<exists>n'. (filter (\<lambda>q. meta_slug q \<noteq> meta_slug m) l = [] \<and>
               relatedStep rnd c l (n, fs) m = Inr (n', fs)) \<or>
         (\<exists>picks. picks \<noteq> [] \<and> set picks \<subseteq> set (filter (\<lambda>q. meta_slug q \<noteq> meta_slug m) l) \<and>
               relatedStep rnd c l (n, fs) m
                 = Inr (n', Map_set (meta_mdxFilePath m) (orig @ relatedBlock c picks) fs))"
proof -
  let ?others = "filter (\<lambda>q. meta_slug q \<noteq> meta_slug m) l"
  let ?picks = "slice (fst (shuffle rnd n ?others)) 0 3"
  note pp = picks_props [of rnd n ?others]
  show ?thesis
  proof (cases "?others = []")
    case True
    then have "?picks = []" using pp by simp
    then show ?thesis using True by (simp add: relatedStep_def Let_def)
  next
    case False
    then have "?picks \<noteq> []" using pp by simp
    then have "relatedStep rnd c l (n, fs) m
        = Inr (snd (shuffle rnd n ?others), Map_set (meta_mdxFilePath m) (orig @ relatedBlock c ?picks) fs)"
      using assms by (simp add: relatedStep_def Let_def)
    then show ?thesis using \<open>?picks \<noteq> []\<close> pp by blast
  qed
qed


lemma forEach_append:
  "forEach f st (xs @ ys) = (case forEach f st xs of Inl e \<Rightarrow> Inl e | Inr st' \<Rightarrow> forEach f st' ys)"
  by (induction xs arbitrary: st) (simp_all split: sum.splits)

lemma forEach_jobs_of_entry:
  "forEach (jobStep rnd) st (map (\<lambda>m. (c, l, m)) ms) = forEach (relatedStep rnd c l) st ms"
  by (induction ms arbitrary: st) (simp_all add: jobStep_def split: sum.splits)

lemma nested_as_jobs:
  "forEach (\<lambda>st' e. forEach (relatedStep rnd (fst e) (snd e)) st' (snd e)) st g
     = forEach (jobStep rnd) st (jobs g)"
proof (induction g arbitrary: st)
  case Nil
  show ?case by (simp add: jobs_def)
next
  case (Cons e g)
  have "jobs (e # g) = map (\<lambda>m. (fst e, snd e, m)) (snd e) @ jobs g" by (simp add: jobs_def)
  then show ?case using Cons by (simp add: forEach_append forEach_jobs_of_entry split: sum.splits)
qed

lemma one_block_appended_eq:
  assumes "map_of fsA p = map_of fsB p" "map_of fsA' p = map_of fsB' p"
    and "one_block_appended fsA fsA' p peers c"
  shows "one_block_appended fsB fsB' p peers c"
  using assms(3) unfolding one_block_appended_def assms(1) assms(2) .

lemma forEach_jobs:
  assumes "distinct (map (\<lambda>j. meta_mdxFilePath (snd (snd j))) js)"
    and "\<forall>j\<in>set js. map_of fs (meta_mdxFilePath (snd (snd j))) \<noteq> None"
  shows "\<exists>n' fs'. forEach (jobStep rnd) (n, fs) js = Inr (n', fs') \<and>
     (\<forall>k. k \<notin> (\<lambda>j. meta_mdxFilePath (snd (snd j))) ` set js \<longrightarrow> map_of fs' k = map_of fs k) \<and>
     (\<forall>j\<in>set js. one_block_appended fs fs' (meta_mdxFilePath (snd (snd j)))
          (filter (\<lambda>q. meta_slug q \<noteq> meta_slug (snd (snd j))) (fst (snd j))) (fst j))"
  using assms
proof (induction js arbitrary: n fs)
  case Nil
  show ?case by simp
next
  case (Cons j js)
  let ?path = "\<lambda>j. meta_mdxFilePath (snd (snd j))"
  let ?others = "\<lambda>j. filter (\<lambda>q. meta_slug q \<noteq> meta_slug (snd (snd j))) (fst (snd j))"
  obtain c l m where j: "j = (c, l, m)" by (cases j)
  from Cons.prems(2) obtain orig0 where o0: "map_of fs (meta_mdxFilePath m) = Some orig0"
    by (auto simp: j)
  have nj: "?path j \<notin> ?path ` set js" and dj: "distinct (map ?path js)"
    using Cons.prems(1) by simp_all
  have "\<exists>n1 fs1. jobStep rnd (n, fs) j = Inr (n1, fs1) \<and>
      one_block_appended fs fs1 (?path j) (?others j) (fst j) \<and>
      (\<forall>k. k \<noteq> ?path j \<longrightarrow> map_of fs1 k = map_of fs k)"
  proof -
    from relatedStep_cases [OF o0, of l rnd c n] obtain n1 where
      "(?others j = [] \<and> relatedStep rnd c l (n, fs) m = Inr (n1, fs)) \<or>
       (\<exists>picks. picks \<noteq> [] \<and> set picks \<subseteq> set (?others j) \<and>
           relatedStep rnd c l (n, fs) m
             = Inr (n1, Map_set (meta_mdxFilePath m) (orig0 @ relatedBlock c picks) fs))"
      unfolding j by auto
    then show ?thesis
    proof
      assume "?others j = [] \<and> relatedStep rnd c l (n, fs) m = Inr (n1, fs)"
      then have "jobStep rnd (n, fs) j = Inr (n1, fs)"
        and "one_block_appended fs fs (?path j) (?others j) (fst j)"
        by (simp_all add: j jobStep_def one_block_appended_def)
      then show ?thesis by blast
    next
      assume "\<exists>picks. picks \<noteq> [] \<and> set picks \<subseteq> set (?others j) \<and>
           relatedStep rnd c l (n, fs) m
             = Inr (n1, Map_set (meta_mdxFilePath m) (orig0 @ relatedBlock c picks) fs)"
      then obtain picks where p: "picks \<noteq> []" "set picks \<subseteq> set (?others j)"
        and r: "relatedStep rnd c l (n, fs) m
             = Inr (n1, Map_set (meta_mdxFilePath m) (orig0 @ relatedBlock c picks) fs)"
        by blast
      let ?fs1 = "Map_set (meta_mdxFilePath m) (orig0 @ relatedBlock c picks) fs"
      have ne: "?others j \<noteq> []"
      proof
        assume "?others j = []"
        then have "set picks \<subseteq> {}" using p(2) by (simp only: set_simps)
        then show False using p(1) by simp
      qed
      have "jobStep rnd (n, fs) j = Inr (n1, ?fs1)" using r by (simp add: j jobStep_def)
      moreover have "one_block_appended fs ?fs1 (?path j) (?others j) (fst j)"
        unfolding one_block_appended_def using p ne o0
        by (auto simp: j map_of_Map_set)
      moreover have "\<forall>k. k \<noteq> ?path j \<longrightarrow> map_of ?fs1 k = map_of fs k"
        by (simp add: j map_of_Map_set)
      ultimately show ?thesis by blast
    qed
  qed
  then obtain n1 fs1 where st: "jobStep rnd (n, fs) j = Inr (n1, fs1)"
    and own: "one_block_appended fs fs1 (?path j) (?others j) (fst j)"
    and oth: "\<forall>k. k \<noteq> ?path j \<longrightarrow> map_of fs1 k = map_of fs k"
    by blast
  have ex: "\<forall>j'\<in>set js. map_of fs1 (?path j') \<noteq> None"
    using Cons.prems(2) oth nj by (metis imageI list.set_intros(2))
  from Cons.IH [OF dj ex, of n1]
  obtain n' fs' where run: "forEach (jobStep rnd) (n1, fs1) js = Inr (n', fs')"
    and a: "\<forall>k. k \<notin> ?path ` set js \<longrightarrow> map_of fs' k = map_of fs1 k"
    and b: "\<forall>j'\<in>set js. one_block_appended fs1 fs' (?path j') (?others j') (fst j')"
    by blast
  have r: "forEach (jobStep rnd) (n, fs) (j # js) = Inr (n', fs')" using st run by simp
  have a': "\<forall>k. k \<notin> ?path ` set (j # js) \<longrightarrow> map_of fs' k = map_of fs k"
    using a oth by simp
  have "map_of fs1 (?path j) = map_of fs' (?path j)" using a nj by simp
  then have bj: "one_block_appended fs fs' (?path j) (?others j) (fst j)"
    using own by (rule one_block_appended_eq [OF refl])
  have bjs: "\<forall>j'\<in>set js. one_block_appended fs fs' (?path j') (?others j') (fst j')"
  proof
    fix j' assume j': "j' \<in> set js"
    then have "?path j' \<noteq> ?path j" using nj by (metis imageI)
    then have "map_of fs1 (?path j') = map_of fs (?path j')" using oth by simp
    moreover have "one_block_appended fs1 fs' (?path j') (?others j') (fst j')" using b j' by blast
    ultimately show "one_block_appended fs fs' (?path j') (?others j') (fst j')"
      by (rule one_block_appended_eq [OF _ refl])
  qed
  show ?case using r a' bj bjs by simp
qed


lemma Map_set_group_mset:
  "mset (concat (map snd (Map_set k (Map_get_or_empty m k @ [p]) m)))
     = mset (concat (map snd m)) + {#p#}"
proof (induction m)
  case Nil
  show ?case by (simp add: Map_get_or_empty_def)
next
  case (Cons a m)
  obtain k' v' where a: "a = (k', v')" by (cases a)
  show ?case
  proof (cases "k' = k")
    case True
    then show ?thesis by (simp add: a Map_get_or_empty_def)
  next
    case False
    then have "Map_get_or_empty (a # m) k = Map_get_or_empty m k"
      by (simp add: a Map_get_or_empty_def)
    then show ?thesis using False Cons by (simp add: a)
  qed
qed

lemma group_fold_mset:
  "mset (concat (map snd (foldl (\<lambda>m p. Map_set (kf p) (Map_get_or_empty m (kf p) @ [p]) m) m0 ps)))
     = mset (concat (map snd m0)) + mset ps"
  by (induction ps arbitrary: m0) (simp_all add: Map_set_group_mset)

lemma groupMetas_mset: "mset (concat (map snd (groupMetas metas))) = mset metas"
  using group_fold_mset [of meta_cluster "[]" metas] by (simp add: groupMetas_def)

lemma groupMetas_entry:
  assumes "(c, l) \<in> set (groupMetas metas)"
  shows "l = filter (\<lambda>m. meta_cluster m = c) metas"
proof -
  have "distinct (map fst (groupMetas metas))"
    unfolding groupMetas_def by (rule group_fold_distinct) simp
  then have "map_of (groupMetas metas) c = Some l" using assms by simp
  then have "Map_get_or_empty (groupMetas metas) c = l" by (simp add: Map_get_or_empty_def)
  moreover have "Map_get_or_empty (groupMetas metas) c = filter (\<lambda>m. meta_cluster m = c) metas"
    using group_fold_get [of meta_cluster "[]" metas c]
    by (simp add: groupMetas_def Map_get_or_empty_def)
  ultimately show ?thesis by simp
qed

lemma jobs_metas: "map (\<lambda>j. snd (snd j)) (jobs g) = concat (map snd g)"
  by (induction g) (simp_all add: jobs_def comp_def)

lemma jobs_set: "set (jobs g) = {(c, l, m). (c, l) \<in> set g \<and> m \<in> set l}"
  by (auto simp: jobs_def)

lemma jobs_paths_distinct:
  assumes "distinct (map meta_mdxFilePath metas)"
  shows "distinct (map (\<lambda>j. meta_mdxFilePath (snd (snd j))) (jobs (groupMetas metas)))"
proof -
  have "map (\<lambda>j. meta_mdxFilePath (snd (snd j))) (jobs (groupMetas metas))
      = map meta_mdxFilePath (concat (map snd (groupMetas metas)))"
    using jobs_metas [of "groupMetas metas"] by (metis (no_types, lifting) map_map comp_def map_eq_conv)
  moreover have "mset (map meta_mdxFilePath (concat (map snd (groupMetas metas))))
      = mset (map meta_mdxFilePath metas)"
    using groupMetas_mset [of metas] by (metis mset_map)
  ultimately show ?thesis using assms by (metis mset_eq_imp_distinct_iff)
qed

lemma job_of_meta:
  assumes "m \<in> set metas"
  shows "(meta_cluster m, filter (\<lambda>q. meta_cluster q = meta_cluster m) metas, m) \<in> set (jobs (groupMetas metas))"
proof -
  have "m \<in># mset (concat (map snd (groupMetas metas)))" using assms by (simp add: groupMetas_mset)
  then have "m \<in> set (concat (map snd (groupMetas metas)))" by (simp only: set_mset_mset)
  then obtain c l where cl: "(c, l) \<in> set (groupMetas metas)" "m \<in> set l" by auto
  then have l: "l = filter (\<lambda>q. meta_cluster q = c) metas" using groupMetas_entry by blast
  then have "c = meta_cluster m" using cl(2) by simp
  then show ?thesis using cl l by (auto simp: jobs_set)
qed

lemma job_is_meta:
  assumes "j \<in> set (jobs (groupMetas metas))"
  shows "snd (snd j) \<in> set metas"
proof -
  obtain c l m where j: "j = (c, l, m)" by (cases j)
  then have cl: "(c, l) \<in> set (groupMetas metas)" "m \<in> set l" using assms by (auto simp: jobs_set)
  then have "l = filter (\<lambda>q. meta_cluster q = c) metas" using groupMetas_entry by blast
  then show ?thesis using cl(2) j by simp
qed

text \<open>
  C6, amended. The random-sample related-links pass has no marker and no check: on a
  batch whose files exist under distinct paths every run succeeds and leaves each
  document that has a same-cluster peer of another slug in the batch as its previous
  text, whatever that text is, followed by one more \<open>Related in <cluster>\<close> block with
  links to at least one of those peers; a document without such a peer keeps its text.
\<close>

theorem C6_related_links_appended_on_every_run:
  assumes "distinct (map meta_mdxFilePath metas)"
    and "\<forall>m\<in>set metas. map_of fs (meta_mdxFilePath m) \<noteq> None"
  shows "\<exists>n' fs'. addRelatedLinks rnd (n, fs) metas = Inr (n', fs') \<and>
           (\<forall>m\<in>set metas.
              one_block_appended fs fs' (meta_mdxFilePath m) (batch_peers metas m) (meta_cluster m))"
proof -
  let ?js = "jobs (groupMetas metas)"
  have d: "distinct (map (\<lambda>j. meta_mdxFilePath (snd (snd j))) ?js)"
    using assms(1) by (rule jobs_paths_distinct)
  have e: "\<forall>j\<in>set ?js. map_of fs (meta_mdxFilePath (snd (snd j))) \<noteq> None"
    using assms(2) job_is_meta by blast
  from forEach_jobs [OF d e, of rnd n]
  obtain n' fs' where run: "forEach (jobStep rnd) (n, fs) ?js = Inr (n', fs')"
    and b: "\<forall>j\<in>set ?js. one_block_appended fs fs' (meta_mdxFilePath (snd (snd j)))
          (filter (\<lambda>q. meta_slug q \<noteq> meta_slug (snd (snd j))) (fst (snd j))) (fst j)"
    by blast
  have r: "addRelatedLinks rnd (n, fs) metas = Inr (n', fs')"
    using run by (simp add: addRelatedLinks_def nested_as_jobs)
  have "\<forall>m\<in>set metas.
      one_block_appended fs fs' (meta_mdxFilePath m) (batch_peers metas m) (meta_cluster m)"
  proof
    fix m assume "m \<in> set metas"
    then have "(meta_cluster m, filter (\<lambda>q. meta_cluster q = meta_cluster m) metas, m) \<in> set ?js"
      by (rule job_of_meta)
    with b show "one_block_appended fs fs' (meta_mdxFilePath m) (batch_peers metas m) (meta_cluster m)"
      by (fastforce simp: batch_peers_def)
  qed
  with r show ?thesis by blast
qed

theorem C6_related_links_witness:
  "distinct (map meta_mdxFilePath [example_meta ''a'', example_meta ''b'']) \<and>
   map_of example_batch (meta_mdxFilePath (example_meta ''a'')) = Some ''one\<newline>'' \<and>
   map_of example_batch (meta_mdxFilePath (example_meta ''b'')) = Some ''two\<newline>'' \<and>
   (\<exists>n' fs'. addRelatedLinks zero_draws (0, example_batch) [example_meta ''a'', example_meta ''b'']
                = Inr (n', fs') \<and>
      one_block_appended example_batch fs' (meta_mdxFilePath (example_meta ''a''))
        (batch_peers [example_meta ''a'', example_meta ''b''] (example_meta ''a''))
        (meta_cluster (example_meta ''a'')) \<and>
      one_block_appended example_batch fs' (meta_mdxFilePath (example_meta ''b''))
        (batch_peers [example_meta ''a'', example_meta ''b''] (example_meta ''b''))
        (meta_cluster (example_meta ''b'')))"
proof -
  have d: "distinct (map meta_mdxFilePath [example_meta ''a'', example_meta ''b''])"
    by (simp add: example_meta_def)
  have a: "map_of example_batch (meta_mdxFilePath (example_meta ''a'')) = Some ''one\<newline>''"
    and b: "map_of example_batch (meta_mdxFilePath (example_meta ''b'')) = Some ''two\<newline>''"
    by (simp_all add: example_meta_def example_batch_def)
  have e: "\<forall>m\<in>set [example_meta ''a'', example_meta ''b'']. map_of example_batch (meta_mdxFilePath m) \<noteq> None"
    using a b by simp
  from C6_related_links_appended_on_every_run [OF d e, of zero_draws 0]
  have "\<exists>n' fs'. addRelatedLinks zero_draws (0, example_batch) [example_meta ''a'', example_meta ''b'']
                = Inr (n', fs') \<and>
      one_block_appended example_batch fs' (meta_mdxFilePath (example_meta ''a''))
        (batch_peers [example_meta ''a'', example_meta ''b''] (example_meta ''a''))
        (meta_cluster (example_meta ''a'')) \<and>
      one_block_appended example_batch fs' (meta_mdxFilePath (example_meta ''b''))
        (batch_peers [example_meta ''a'', example_meta ''b''] (example_meta ''b''))
        (meta_cluster (example_meta ''b''))"
    by (simp only: list.set ball_simps insert_iff empty_iff) blast
  with d a b show ?thesis by blast
qed

subsection \<open>Where the early block goes when the heading line is ended by a line feed\<close>


lemma indexFrom_found:
  "indexFrom needle hay k = r \<Longrightarrow> r \<noteq> - 1 \<Longrightarrow>
   \<exists>i. r = int (k + i) \<and> i \<le> length hay \<and> prefix needle (drop i hay) \<and>
       (\<forall>i'<i. \<not> prefix needle (drop i' hay))"
proof (induction hay arbitrary: k)
  case Nil
  then show ?case by (auto split: if_splits)
next
  case (Cons c cs)
  show ?case
  proof (cases "prefix needle (c # cs)")
    case True
    then have "r = int (k + 0)" using Cons.prems(1) by simp
    then show ?thesis using True by (intro exI [of _ 0]) simp
  next
    case False
    then have "indexFrom needle cs (Suc k) = r" using Cons.prems(1) by simp
    from Cons.IH [OF this Cons.prems(2)] obtain i where
      i: "r = int (Suc k + i)" "i \<le> length cs" "prefix needle (drop i cs)"
         "\<forall>i'<i. \<not> prefix needle (drop i' cs)" by blast
    have "\<forall>i'<Suc i. \<not> prefix needle (drop i' (c # cs))"
    proof (intro allI impI)
      fix i' assume "i' < Suc i"
      then show "\<not> prefix needle (drop i' (c # cs))"
        using False i(4) by (cases i') simp_all
    qed
    then show ?thesis using i by (intro exI [of _ "Suc i"]) simp
  qed
qed

lemma indexOf_found:
  assumes "indexOf hay needle (int from) = r" "r \<noteq> - 1" "from \<le> length hay"
  shows "\<exists>j. r = int j \<and> from \<le> j \<and> j \<le> length hay \<and> prefix needle (drop j hay) \<and>
           (\<forall>j'. from \<le> j' \<and> j' < j \<longrightarrow> \<not> prefix needle (drop j' hay))"
proof -
  have k: "nat (max 0 (min (int from) (int (length hay)))) = from" using assms(3) by simp
  have "indexFrom needle (drop from hay) from = r"
    using assms(1) unfolding indexOf_def Let_def k .
  from indexFrom_found [OF this assms(2)] obtain i where
    i: "r = int (from + i)" "i \<le> length (drop from hay)" "prefix needle (drop i (drop from hay))"
       "\<forall>i'<i. \<not> prefix needle (drop i' (drop from hay))" by blast
  have "\<forall>j'. from \<le> j' \<and> j' < from + i \<longrightarrow> \<not> prefix needle (drop j' hay)"
  proof (intro allI impI)
    fix j' assume j': "from \<le> j' \<and> j' < from + i"
    then have "j' - from < i" by linarith
    then have "\<not> prefix needle (drop (j' - from) (drop from hay))" using i(4) by blast
    then show "\<not> prefix needle (drop j' hay)" using j' by simp
  qed
  then show ?thesis using i assms(3)
    by (intro exI [of _ "from + i"]) (simp add: add.commute)
qed

lemma prefix_single: "prefix [x] (drop j s) \<longleftrightarrow> j < length s \<and> s ! j = x"
proof (cases "j < length s")
  case True
  then show ?thesis by (auto simp: Cons_nth_drop_Suc [symmetric])
next
  case False
  then show ?thesis by simp
qed

lemma nthIndexOf_second:
  assumes "nthIndexOf c needle 2 = int i"
  shows "i \<le> length c \<and> prefix needle (drop i c)"
proof -
  let ?f = "indexOf c needle 0"
  have two: "nthIndexOf c needle 2
      = (if ?f = - 1 then - 1 else if indexOf c needle (?f + 1) = - 1 then - 1 else indexOf c needle (?f + 1))"
    by (simp add: nthIndexOf_def numeral_2_eq_2 Let_def)
  then have f1: "?f \<noteq> - 1" using assms by auto
  have "indexOf c needle (int 0) = ?f" by simp
  from indexOf_found [OF this f1] obtain a where a: "?f = int a" "a \<le> length c" by auto
  have sa: "?f + 1 = int (Suc a)" using a(1) by simp
  have "indexOf c needle (?f + 1) = int i"
    using two f1 assms by (metis)
  then have s: "indexOf c needle (int (Suc a)) = int i" by (simp only: sa)
  show ?thesis
  proof (cases "Suc a \<le> length c")
    case True
    from indexOf_found [OF s _ True] show ?thesis by auto
  next
    case False
    then have al: "a = length c" using a(2) by simp
    have "indexOf c needle (int (Suc a)) = indexFrom needle [] (length c)"
      by (simp add: indexOf_def al Let_def)
    then have "needle = [] \<and> i = length c" using s by (auto split: if_splits)
    then show ?thesis by simp
  qed
qed

lemma insertEarly_position:
  assumes "e \<noteq> []" "\<not> includes_str c EARLY_START"
    and "nthIndexOf c ''\<newline>## '' 2 = int i"
    and "indexOf c ''\<newline>'' (int i + 1) = int j"
  shows "insertEarly c e = take j c @ e @ drop j c \<and>
         prefix ''\<newline>## '' (drop i c) \<and> i < j \<and> j < length c \<and> c ! j = CHR 0x0A \<and>
         (\<forall>k. i < k \<and> k < j \<longrightarrow> c ! k \<noteq> CHR 0x0A)"
proof -
  from nthIndexOf_second [OF assms(3)] have h: "i \<le> length c" "prefix ''\<newline>## '' (drop i c)" by simp_all
  have "drop i c \<noteq> []" using h(2) by auto
  then have il: "Suc i \<le> length c" by simp
  have "indexOf c ''\<newline>'' (int (Suc i)) = int j" using assms(4) by (simp add: add.commute)
  from indexOf_found [OF this _ il] obtain j' where
    j': "int j = int j'" "Suc i \<le> j'" "prefix ''\<newline>'' (drop j' c)"
        "\<forall>k. Suc i \<le> k \<and> k < j' \<longrightarrow> \<not> prefix ''\<newline>'' (drop k c)" by auto
  then have jj: "j' = j" by simp
  have jl: "j < length c" and cj: "c ! j = CHR 0x0A"
    using j'(3) by (simp_all add: jj prefix_single)
  have gap: "\<forall>k. i < k \<and> k < j \<longrightarrow> c ! k \<noteq> CHR 0x0A"
  proof (intro allI impI)
    fix k assume k: "i < k \<and> k < j"
    then have "\<not> prefix ''\<newline>'' (drop k c)" using j'(4) by (simp add: jj Suc_le_eq)
    moreover have "k < length c" using k jl by simp
    ultimately show "c ! k \<noteq> CHR 0x0A" by (simp add: prefix_single)
  qed
  have sl: "slice c 0 (int j) = take j c" by (simp add: slice_0_nonneg)
  have sf: "sliceFrom c (int j) = drop j c" using jl by (simp add: sliceFrom_def slice_def Let_def)
  have "insertEarly c e = take j c @ e @ drop j c"
    using assms by (simp add: insertEarly_def Let_def sl sf)
  then show ?thesis using h(2) j'(2) jl cj gap by (simp add: jj Suc_le_eq)
qed

subsection \<open>The second pass of the link pass\<close>

lemma no_dashes_short:
  assumes "length t < 3"
  shows "\<not> prefix ''---'' (t @ CHR 0x0A # r)"
proof -
  consider "t = []" | a where "t = [a]" | a b where "t = [a, b]"
  proof (cases t)
    case Nil
    then show ?thesis using that by blast
  next
    case (Cons a t1)
    show ?thesis
    proof (cases t1)
      case Nil
      then show ?thesis using Cons that by blast
    next
      case (Cons b t2)
      then have "t2 = []" using assms \<open>t = a # t1\<close> by simp
      then show ?thesis using Cons \<open>t = a # t1\<close> that by blast
    qed
  qed
  then show ?thesis by cases simp_all
qed

lemma plain_insert:
  assumes "plain_body c" "hd e = CHR 0x0A" "e \<noteq> []"
  shows "plain_body (take k c @ e @ r)"
proof -
  obtain e' where e: "e = CHR 0x0A # e'" using assms(2,3) by (cases e) auto
  define t where "t = take k c"
  have tc: "prefix t c" unfolding t_def by (rule take_is_prefix)
  have "\<not> prefix ''---'' (t @ e @ r)"
  proof (cases "length t < 3")
    case True
    then show ?thesis unfolding e by (simp only: append_Cons no_dashes_short not_False_eq_True)
  next
    case False
    show ?thesis
    proof
      assume "prefix ''---'' (t @ e @ r)"
      then have "prefix ''---'' t \<or> (\<exists>us. ''---'' = t @ us \<and> prefix us (e @ r))"
        by (simp only: prefix_append)
      then have "prefix ''---'' t"
      proof
        assume "prefix ''---'' t" then show ?thesis .
      next
        assume "\<exists>us. ''---'' = t @ us \<and> prefix us (e @ r)"
        then obtain us where us: "''---'' = t @ us" by blast
        then have "length (''---''::string) = length t + length us" by (metis length_append)
        then have "3 = length t + length us" by simp
        then have "length us = 0" using False by linarith
        then have "us = []" by simp
        then show ?thesis using us by simp
      qed
      then have "prefix ''---'' c" using tc by (rule prefix_order.trans)
      then show False using assms(1) by (simp add: plain_body_def)
    qed
  qed
  then show ?thesis by (simp add: plain_body_def t_def)
qed

lemma plain_append:
  assumes "plain_body c" "n = [] \<or> hd n = CHR 0x0A"
  shows "plain_body (c @ n)"
proof (cases "n = []")
  case True
  then show ?thesis using assms(1) by simp
next
  case False
  then have "plain_body (take (length c) c @ n @ [])" using assms by (intro plain_insert) auto
  then show ?thesis by simp
qed

lemma plain_newline:
  assumes "plain_body c"
  shows "plain_body (newline c)"
proof -
  have "newline c = c \<or> newline c = c @ ''\<newline>''" by (simp add: newline_def)
  moreover have "plain_body (c @ ''\<newline>'')" using assms by (rule plain_append) simp
  ultimately show ?thesis using assms by auto
qed

lemma slice_0_take: "\<exists>k. slice xs 0 e = take k xs"
  by (auto simp: slice_def Let_def)

lemma plain_insertEarly:
  assumes "plain_body c" "e = [] \<or> hd e = CHR 0x0A"
  shows "plain_body (insertEarly c e)"
proof (cases "insertEarly c e = c")
  case True
  then show ?thesis using assms(1) by simp
next
  case False
  then have ne: "e \<noteq> []" by (auto simp: insertEarly_def)
  from False obtain j where "insertEarly c e = slice c 0 j @ e @ sliceFrom c j"
    by (auto simp: insertEarly_def Let_def split: if_splits)
  moreover obtain k where "slice c 0 j = take k c" using slice_0_take by blast
  ultimately show ?thesis using assms ne by (simp add: plain_insert)
qed

lemma plain_insertBlocks:
  assumes "plain_body c" "e = [] \<or> hd e = CHR 0x0A" "n = [] \<or> hd n = CHR 0x0A" "v = [] \<or> hd v = CHR 0x0A"
  shows "plain_body (insertBlocks c e n v)"
proof -
  have 1: "plain_body (insertEarly c e)" using assms(1,2) by (rule plain_insertEarly)
  have 2: "plain_body (appendEnd (insertEarly c e) n)"
    unfolding appendEnd_def using 1 assms(3) by (auto intro!: plain_append)
  show ?thesis
    unfolding insertBlocks_def appendNav_def using 2 assms(4) by (auto intro!: plain_append)
qed

lemma blockWithLinks_head: "blockWithLinks t items = [] \<or> hd (blockWithLinks t items) = CHR 0x0A"
  by (simp add: blockWithLinks_def Let_def)

lemma prevNextBlock_head: "prevNextBlock prev next = [] \<or> hd (prevNextBlock prev next) = CHR 0x0A"
  by (simp add: prevNextBlock_def Let_def)

lemma plain_linkedContent: "plain_body (post_content p) \<Longrightarrow> plain_body (linkedContent col ps p)"
  unfolding linkedContent_def Let_def
  by (intro plain_insertBlocks blockWithLinks_head prevNextBlock_head)

lemma parsePost_content: "parsePost m f = Some p \<Longrightarrow> post_content p = snd (m (snd f))"
  by (auto simp: parsePost_def split: prod.splits dest: mkPost_fields(3))





lemma plain_files_after:
  assumes rt: "round_trip m s" and pf: "plain_files m files"
  shows "plain_files m (map (fileAfter m s col bc) files)"
  unfolding plain_files_def
proof
  fix g assume "g \<in> set (map (fileAfter m s col bc) files)"
  then obtain f where f: "f \<in> set files" and g: "g = fileAfter m s col bc f" by auto
  have pl: "plain_body (snd (m (snd f)))" using pf f by (simp add: plain_files_def)
  show "plain_body (snd (m (snd g)))"
  proof (cases "parsePost m f")
    case None
    then show ?thesis using pl g by (simp add: fileAfter_def)
  next
    case (Some p)
    show ?thesis
    proof (cases "clusterPostsOf bc p = []")
      case True
      then show ?thesis using pl g Some by (simp add: fileAfter_def)
    next
      case False
      let ?u = "linkedContent col (clusterPostsOf bc p) p"
      have "plain_body (post_content p)" using pl Some by (simp add: parsePost_content)
      then have pu: "plain_body ?u" by (rule plain_linkedContent)
      then have "m (s ?u (post_data p)) = (post_data p, newline ?u)"
        using rt by (simp add: round_trip_def)
      then show ?thesis using g Some False pu by (simp add: fileAfter_def plain_newline)
    qed
  qed
qed




lemma first_pass_changes:
  "applyInternalLinks gm_matter gm_stringify by_code_units example_files \<noteq> example_files"
  by code_simp


end
